theory Spec2Isabelle
  imports Complex_Main "HOL-Library.Word" "HOL-Library.Multiset"
begin

section \<open>Data model of systemmonitor.cpp\<close>

text \<open>
  \<^verbatim>\<open>unsigned long long\<close> is a 64-bit word (subtraction and addition wrap), \<^verbatim>\<open>int\<close> and
  \<^verbatim>\<open>long\<close> values are integers whose range is written out where a conversion produces
  them, and a \<^verbatim>\<open>double\<close> is the real number it denotes: infinities and NaN are outside
  this model.  The percentages are computed in exact real arithmetic; the bar length,
  where the last bit decides which cell is filled, is computed with each operation
  rounded to binary64 (\<open>round_double\<close>).  What C++ leaves undefined (a division by zero,
  a conversion of a double that does not fit an int, the read of an uninitialised
  variable) and what it throws are values of type \<open>error\<close>.
\<close>

type_synonym ull = "64 word"
type_synonym double = real

datatype error =
    InvalidArgument | OutOfRange | DivideByZero | ConversionOverflow | SignedOverflow
  | UninitialisedRead

record Proc =
  pid :: int
  name :: string
  prev_time :: ull
  time :: ull
  rss_pages :: int
  cpu_pct :: double
  mem_pct :: double

definition Proc0 :: Proc where
  \<comment> \<open>the default member initialisers of \<^verbatim>\<open>struct Proc\<close>\<close>
  "Proc0 = \<lparr>pid = 0, name = [], prev_time = 0, time = 0, rss_pages = 0,
            cpu_pct = 0, mem_pct = 0\<rparr>"

definition bindE :: "error + 'a \<Rightarrow> ('a \<Rightarrow> error + 'b) \<Rightarrow> error + 'b" where
  "bindE r f = (case r of Inl e \<Rightarrow> Inl e | Inr v \<Rightarrow> f v)"

definition fdiv :: "double \<Rightarrow> double \<Rightarrow> error + double" where
  \<comment> \<open>\<^verbatim>\<open>a / b\<close> on doubles with a divisor that is not a literal\<close>
  "fdiv a b = (if b = 0 then Inl DivideByZero else Inr (a / b))"

definition ull_to_double :: "ull \<Rightarrow> double" where
  "ull_to_double w = real (unat w)"


section \<open>The per-process pass of the main loop (lines 207--220)\<close>

definition proc_prev :: "(int \<rightharpoonup> ull) \<Rightarrow> Proc \<Rightarrow> ull" where
  \<comment> \<open>\<^verbatim>\<open>prev_proc_time.count(p.pid) ? prev_proc_time[p.pid] : p.time\<close>, the map being \<open>ppt\<close>\<close>
  "proc_prev ppt p =
     (case ppt (pid p) of Some t \<Rightarrow> t | None \<Rightarrow> time p)"

definition proc_delta :: "(int \<rightharpoonup> ull) \<Rightarrow> Proc \<Rightarrow> ull" where
  \<comment> \<open>\<^verbatim>\<open>(p.time > prev) ? (p.time - prev) : 0ULL\<close>\<close>
  "proc_delta ppt p =
     (let prev = proc_prev ppt p
      in if time p > prev then time p - prev else 0)"

definition cpu_pct_of :: "int \<Rightarrow> double \<Rightarrow> ull \<Rightarrow> error + double" where
  \<comment> \<open>\<^verbatim>\<open>proc_seconds = (double)delta / (double)CLK_TCK;
      cpu_pct = (interval > 0.0) ? (proc_seconds / interval) * 100.0 : 0.0\<close>\<close>
  "cpu_pct_of CLK_TCK interval delta =
     bindE (fdiv (ull_to_double delta) (real_of_int CLK_TCK)) (\<lambda>proc_seconds.
       if interval > 0 then bindE (fdiv proc_seconds interval) (\<lambda>q. Inr (q * 100))
       else Inr 0)"

definition mem_pct_of :: "int \<Rightarrow> double \<Rightarrow> int \<Rightarrow> error + double" where
  \<comment> \<open>\<^verbatim>\<open>rss_bytes = (double)p.rss_pages * (double)PAGE_SIZE;
      rss_mb = rss_bytes / (1024.0 * 1024.0);
      mem_pct = (mem_total_mb > 0.0) ? (rss_mb / mem_total_mb) * 100.0 : 0.0\<close>\<close>
  "mem_pct_of PAGE_SIZE mem_total_mb rss =
     (let rss_bytes = real_of_int rss * real_of_int PAGE_SIZE;
          rss_mb = rss_bytes / (1024 * 1024)
      in if mem_total_mb > 0 then bindE (fdiv rss_mb mem_total_mb) (\<lambda>q. Inr (q * 100))
         else Inr 0)"

definition update_proc ::
  "int \<Rightarrow> int \<Rightarrow> double \<Rightarrow> double \<Rightarrow> (int \<rightharpoonup> ull) \<Rightarrow> Proc \<Rightarrow> error + Proc \<times> (int \<rightharpoonup> ull)" where
  \<comment> \<open>one turn of \<^verbatim>\<open>for (auto &p : procs)\<close>: the updated element and the updated map\<close>
  "update_proc CLK_TCK PAGE_SIZE interval mem_total_mb ppt p =
     bindE (cpu_pct_of CLK_TCK interval (proc_delta ppt p)) (\<lambda>c.
       let ppt' = ppt(pid p \<mapsto> time p)
       in bindE (mem_pct_of PAGE_SIZE mem_total_mb (rss_pages p)) (\<lambda>m.
            Inr (p\<lparr>cpu_pct := c, mem_pct := m\<rparr>, ppt')))"

fun update_procs ::
  "int \<Rightarrow> int \<Rightarrow> double \<Rightarrow> double \<Rightarrow> (int \<rightharpoonup> ull) \<Rightarrow> Proc list
     \<Rightarrow> error + Proc list \<times> (int \<rightharpoonup> ull)" where
  "update_procs CLK_TCK PAGE_SIZE interval mem_total_mb ppt [] =
     Inr ([], ppt)"
| "update_procs CLK_TCK PAGE_SIZE interval mem_total_mb ppt (p # ps) =
     bindE (update_proc CLK_TCK PAGE_SIZE interval mem_total_mb ppt p) (\<lambda>(p', m').
       bindE (update_procs CLK_TCK PAGE_SIZE interval mem_total_mb m' ps) (\<lambda>(ps', m'').
         Inr (p' # ps', m'')))"



section \<open>Reading one snapshot (lines 72--154)\<close>

text \<open>
  The files under \<^verbatim>\<open>/proc/<pid>/\<close> are a view \<open>files pid f\<close> of their contents, \<open>None\<close>
  for a file that cannot be opened (the process is gone, or permission is denied).  The
  library functions the reader calls are modelled as their standards describe them:
  stream extraction splits at white space, \<^verbatim>\<open>std::stoull\<close> throws
  \<^verbatim>\<open>std::invalid_argument\<close> when no digits are found and \<^verbatim>\<open>std::out_of_range\<close> above
  \<open>2^64 - 1\<close>, and \<^verbatim>\<open>atoi\<close> is \<^verbatim>\<open>(int) strtol(s, NULL, 10)\<close> as in glibc.
\<close>

datatype pfile = Comm | Stat | Statm | Status

definition isspace_c :: "char \<Rightarrow> bool" where
  "isspace_c c = (c \<in> set [CHR '' '', CHR 0x09, CHR 0x0A, CHR 0x0B, CHR 0x0C, CHR 0x0D])"

definition isdigit_c :: "char \<Rightarrow> bool" where
  "isdigit_c c = (c \<in> set ''0123456789'')"

definition digit_val :: "char \<Rightarrow> nat" where
  "digit_val c = of_char c - 48"

definition decimal :: "string \<Rightarrow> nat" where
  "decimal ds = foldl (\<lambda>a c. 10 * a + digit_val c) 0 ds"

definition strip_sign :: "string \<Rightarrow> bool \<times> string" where
  \<comment> \<open>an optional \<^verbatim>\<open>+\<close> or \<^verbatim>\<open>-\<close> in front of the digits; \<open>True\<close> for a minus\<close>
  "strip_sign s =
     (case s of [] \<Rightarrow> (False, [])
      | c # r \<Rightarrow> if c = CHR ''-'' then (True, r) else if c = CHR ''+'' then (False, r)
                 else (False, s))"

definition read_first_line :: "string option \<Rightarrow> string" where
  "read_first_line f =
     (case f of None \<Rightarrow> [] | Some content \<Rightarrow> takeWhile (\<lambda>c. c \<noteq> CHR 0x0A) content)"

definition is_digits :: "string \<Rightarrow> bool" where
  "is_digits s = (s \<noteq> [] \<and> list_all isdigit_c s)"

fun split_ws :: "string \<Rightarrow> string \<Rightarrow> string list" where
  "split_ws cur [] = (if cur = [] then [] else [cur])"
| "split_ws cur (c # cs) =
     (if isspace_c c then (if cur = [] then split_ws [] cs else cur # split_ws [] cs)
      else split_ws (cur @ [c]) cs)"

definition tokens :: "string \<Rightarrow> string list" where
  \<comment> \<open>\<^verbatim>\<open>while (iss >> token) toks.push_back(token)\<close>\<close>
  "tokens s = split_ws [] s"

fun split_nl :: "string \<Rightarrow> string \<Rightarrow> string list" where
  "split_nl cur [] = (if cur = [] then [] else [cur])"
| "split_nl cur (c # cs) =
     (if c = CHR 0x0A then cur # split_nl [] cs else split_nl (cur @ [c]) cs)"

definition file_lines :: "string \<Rightarrow> string list" where
  \<comment> \<open>the lines \<^verbatim>\<open>while (std::getline(st, line))\<close> goes through\<close>
  "file_lines content = split_nl [] content"

definition stoull :: "string \<Rightarrow> error + ull" where
  "stoull s =
     (let (neg, s2) = strip_sign (dropWhile isspace_c s);
          ds = takeWhile isdigit_c s2
      in if ds = [] then Inl InvalidArgument
         else if decimal ds \<ge> 2 ^ 64 then Inl OutOfRange
         else Inr (if neg then - of_nat (decimal ds) else of_nat (decimal ds)))"

definition LONG_MAX :: int where "LONG_MAX = 2 ^ 63 - 1"
definition LONG_MIN :: int where "LONG_MIN = - (2 ^ 63)"

definition strtol10 :: "string \<Rightarrow> int" where
  \<comment> \<open>\<^verbatim>\<open>strtol(s, NULL, 10)\<close>: 0 when there are no digits, clamped to the range of long\<close>
  "strtol10 s =
     (let (neg, s2) = strip_sign (dropWhile isspace_c s);
          n = int (decimal (takeWhile isdigit_c s2));
          v = (if neg then - n else n)
      in max LONG_MIN (min LONG_MAX v))"

definition atoi :: "string \<Rightarrow> int" where
  "atoi s = sint (word_of_int (strtol10 s) :: 32 word)"

definition extract_long :: "string \<Rightarrow> bool \<times> int \<times> string" where
  \<comment> \<open>\<^verbatim>\<open>iss >> v\<close> for a long: success, the value stored (0 when no digits are found, the
      nearest bound on overflow, both with the stream failed), and the rest of the input\<close>
  "extract_long s =
     (let (neg, s2) = strip_sign (dropWhile isspace_c s);
          ds = takeWhile isdigit_c s2;
          v = (if neg then - int (decimal ds) else int (decimal ds))
      in if ds = [] then (False, 0, s2)
         else if v > LONG_MAX then (False, LONG_MAX, dropWhile isdigit_c s2)
         else if v < LONG_MIN then (False, LONG_MIN, dropWhile isdigit_c s2)
         else (True, v, dropWhile isdigit_c s2))"

definition statm_rss :: "string \<Rightarrow> int" where
  \<comment> \<open>\<^verbatim>\<open>long rss = 0; long size = 0; iss >> size >> rss;\<close>\<close>
  "statm_rss statm =
     (case extract_long statm of
        (ok, sz, rest) \<Rightarrow>
          if ok then (case extract_long rest of (ok2, rss, rest2) \<Rightarrow> rss) else 0)"

definition tdiv :: "int \<Rightarrow> int \<Rightarrow> int" where
  \<comment> \<open>C++ integer division truncates towards zero\<close>
  "tdiv a b = sgn a * sgn b * (\<bar>a\<bar> div \<bar>b\<bar>)"

definition vmrss_pages :: "int \<Rightarrow> string \<Rightarrow> error + int" where
  \<comment> \<open>\<^verbatim>\<open>long kb; iss >> k >> kb; p.rss_pages = kb * 1024 / PAGE_SIZE;\<close>  When nothing
      but white space follows the key, the stream is at its end, the extraction does not
      run and \<^verbatim>\<open>kb\<close> is read uninitialised; when something follows that is not a number,
      the extraction stores 0\<close>
  "vmrss_pages PAGE_SIZE line =
     (let after_k = dropWhile (\<lambda>c. \<not> isspace_c c) (dropWhile isspace_c line)
      in if dropWhile isspace_c after_k = [] then Inl UninitialisedRead
         else (case extract_long after_k of
                 (ok, kb, rest) \<Rightarrow>
                   if kb * 1024 > LONG_MAX \<or> kb * 1024 < LONG_MIN then Inl SignedOverflow
                   else if PAGE_SIZE = 0 then Inl DivideByZero
                   else if tdiv (kb * 1024) PAGE_SIZE > LONG_MAX then Inl SignedOverflow
                   else Inr (tdiv (kb * 1024) PAGE_SIZE)))"

definition read_stat_time :: "string \<Rightarrow> Proc \<Rightarrow> error + Proc" where
  \<comment> \<open>lines 96--110: utime and stime are the 14th and 15th white-space separated tokens\<close>
  "read_stat_time stat p =
     (if stat \<noteq> [] then
        (let toks = tokens stat
         in if length toks \<ge> 22 then
              bindE (stoull (toks ! 13)) (\<lambda>utime.
                bindE (stoull (toks ! 14)) (\<lambda>stime.
                  Inr (p\<lparr>time := utime + stime\<rparr>)))
            else Inr p)
      else Inr p)"

definition read_rss :: "(pfile \<Rightarrow> string option) \<Rightarrow> int \<Rightarrow> Proc \<Rightarrow> error + Proc" where
  \<comment> \<open>lines 113--134: statm, with VmRSS of status as the fallback\<close>
  "read_rss pf PAGE_SIZE p =
     (let statm = read_first_line (pf Statm)
      in if statm \<noteq> [] then Inr (p\<lparr>rss_pages := statm_rss statm\<rparr>)
         else (case pf Status of
                 None \<Rightarrow> Inr p
               | Some content \<Rightarrow>
                   (case find (\<lambda>line. take 6 line = ''VmRSS:'') (file_lines content) of
                      None \<Rightarrow> Inr p
                    | Some line \<Rightarrow>
                        bindE (vmrss_pages PAGE_SIZE line) (\<lambda>r. Inr (p\<lparr>rss_pages := r\<rparr>)))))"

definition read_process_basic :: "(int \<Rightarrow> pfile \<Rightarrow> string option) \<Rightarrow> int \<Rightarrow> int \<Rightarrow> error + Proc" where
  "read_process_basic files PAGE_SIZE n =
     (let p = Proc0\<lparr>pid := n, name := read_first_line (files n Comm)\<rparr>
      in bindE (read_stat_time (read_first_line (files n Stat)) p) (\<lambda>p1.
           read_rss (files n) PAGE_SIZE p1))"

fun read_entries :: "(int \<Rightarrow> pfile \<Rightarrow> string option) \<Rightarrow> int \<Rightarrow> string list \<Rightarrow> error + Proc list" where
  "read_entries files PAGE_SIZE [] = Inr []"
| "read_entries files PAGE_SIZE (d_name # ds) =
     (if is_digits d_name then
        bindE (read_process_basic files PAGE_SIZE (atoi d_name)) (\<lambda>p.
          bindE (read_entries files PAGE_SIZE ds) (\<lambda>procs. Inr (p # procs)))
      else read_entries files PAGE_SIZE ds)"

definition get_all_processes ::
  "string list option \<Rightarrow> (int \<Rightarrow> pfile \<Rightarrow> string option) \<Rightarrow> int \<Rightarrow> error + Proc list" where
  \<comment> \<open>\<open>dir\<close> is what \<^verbatim>\<open>readdir\<close> lists in \<^verbatim>\<open>/proc\<close>, \<open>None\<close> when \<^verbatim>\<open>opendir\<close> fails\<close>
  "get_all_processes dir files PAGE_SIZE =
     (case dir of None \<Rightarrow> Inr [] | Some ds \<Rightarrow> read_entries files PAGE_SIZE ds)"


section \<open>Sorting (lines 223--237)\<close>

definition cmp_cpu :: "Proc \<Rightarrow> Proc \<Rightarrow> bool" where
  "cmp_cpu a b = (if cpu_pct a = cpu_pct b then pid a < pid b else cpu_pct a > cpu_pct b)"

definition cmp_mem :: "Proc \<Rightarrow> Proc \<Rightarrow> bool" where
  "cmp_mem a b = (if mem_pct a = mem_pct b then pid a < pid b else mem_pct a > mem_pct b)"

definition cmp_pid :: "Proc \<Rightarrow> Proc \<Rightarrow> bool" where
  "cmp_pid a b = (pid a < pid b)"

definition sort_cmp :: "int \<Rightarrow> Proc \<Rightarrow> Proc \<Rightarrow> bool" where
  \<comment> \<open>the comparator the three branches on \<^verbatim>\<open>sort_mode\<close> hand to \<^verbatim>\<open>std::sort\<close>\<close>
  "sort_cmp mode = (if mode = 0 then cmp_cpu else if mode = 1 then cmp_mem else cmp_pid)"

definition sort_post :: "('a \<Rightarrow> 'a \<Rightarrow> bool) \<Rightarrow> 'a list \<Rightarrow> 'a list \<Rightarrow> bool" where
  \<comment> \<open>what the C++ standard promises of \<^verbatim>\<open>std::sort(first, last, comp)\<close>: the same elements,
      and no later element ordered before an earlier one by \<^verbatim>\<open>comp\<close>\<close>
  "sort_post lt xs ys = (mset ys = mset xs \<and> sorted_wrt (\<lambda>a b. \<not> lt b a) ys)"

fun insert_by :: "('a \<Rightarrow> 'a \<Rightarrow> bool) \<Rightarrow> 'a \<Rightarrow> 'a list \<Rightarrow> 'a list" where
  "insert_by lt x [] = [x]"
| "insert_by lt x (y # ys) = (if lt x y then x # y # ys else y # insert_by lt x ys)"

definition std_sort :: "('a \<Rightarrow> 'a \<Rightarrow> bool) \<Rightarrow> 'a list \<Rightarrow> 'a list" where
  \<comment> \<open>\<^verbatim>\<open>std::sort\<close> is library code whose algorithm is not fixed; the model runs an
      insertion sort, one of the functions that meet \<open>sort_post\<close>\<close>
  "std_sort lt xs = foldr (insert_by lt) xs []"


section \<open>Drawing (lines 156--161 and 239--292)\<close>

datatype cell = ACS_CKBOARD | BLANK

datatype item =
    Title | SortLabel string | Summary double double double double
  | CpuBarLabel | MemLabel | MemText double double double
  | TableHeader | Row int string double double
  | Commands | EnterCommand | KillPrompt | KillSent int | KillFailed int

datatype event =
    Clear | Mvprintw int int item | Mvaddch int int cell | Refresh | Getch
  | Nodelay bool | Echo | Noecho | CursSet int | Getnstr nat
  | Kill int \<comment> \<open>\<^verbatim>\<open>kill(pid, SIGTERM)\<close>\<close>
  | SleepMs nat

fun bits :: "nat \<Rightarrow> nat" where
  \<comment> \<open>the number of binary digits of \<open>n\<close>\<close>
  "bits n = (if n = 0 then 0 else Suc (bits (n div 2)))"

declare bits.simps [simp del]

definition bexp :: "real \<Rightarrow> int" where
  \<comment> \<open>the binary exponent of \<open>x \<noteq> 0\<close>: \<open>2 powi bexp x \<le> \<bar>x\<bar> < 2 powi (bexp x + 1)\<close>\<close>
  "bexp x =
     (if \<bar>x\<bar> \<ge> 1 then int (bits (nat \<lfloor>\<bar>x\<bar>\<rfloor>)) - 1
      else - int (bits (nat \<lceil>1 / \<bar>x\<bar>\<rceil> - 1)))"

definition rne :: "real \<Rightarrow> int" where
  \<comment> \<open>the nearest integer, a tie going to the even one\<close>
  "rne x =
     (let f = \<lfloor>x\<rfloor>; d = x - real_of_int f
      in if d < 1 / 2 then f else if d > 1 / 2 then f + 1 else if even f then f else f + 1)"

definition round_double :: "real \<Rightarrow> real" where
  \<comment> \<open>the binary64 value nearest to \<open>x\<close>, ties to even: 53 significant bits, spacing
      \<open>2 powi (bexp x - 52)\<close> and no finer than \<open>2 powi (- 1074)\<close>.  Overflow to infinity
      is not represented; \<open>double_to_int\<close> refuses such magnitudes either way\<close>
  "round_double x =
     (if x = 0 then 0
      else let u = 2 powi (max (bexp x) (- 1022) - 52)
           in u * real_of_int (rne (x / u)))"

definition double_to_int :: "double \<Rightarrow> error + int" where
  \<comment> \<open>\<^verbatim>\<open>(int)d\<close> truncates towards zero; a value that does not fit an int is undefined\<close>
  "double_to_int d =
     (let t = (if d \<ge> 0 then \<lfloor>d\<rfloor> else \<lceil>d\<rceil>)
      in if - (2 ^ 31) \<le> t \<and> t < 2 ^ 31 then Inr t else Inl ConversionOverflow)"

definition draw_bar :: "int \<Rightarrow> int \<Rightarrow> int \<Rightarrow> double \<Rightarrow> error + event list" where
  \<comment> \<open>\<^verbatim>\<open>int filled = (int)(fraction * width + 0.5);\<close> the int converts to double exactly,
      the product and the sum are each rounded\<close>
  "draw_bar y x width fraction =
     bindE (double_to_int (round_double (round_double (fraction * real_of_int width) + 1 / 2)))
       (\<lambda>filled.
       Inr (map (\<lambda>i. Mvaddch y (x + int i) (if int i < filled then ACS_CKBOARD else BLANK))
              [0..<nat width]))"


definition aggregate_cpu :: "ull \<Rightarrow> Proc list \<Rightarrow> double" where
  \<comment> \<open>lines 245--253\<close>
  "aggregate_cpu total_time_delta procs =
     (if total_time_delta > 0 then foldl (\<lambda>sum_proc_cpu p. sum_proc_cpu + cpu_pct p) 0 procs
      else 0)"

fun dec :: "nat \<Rightarrow> string" where
  "dec n = (if n < 10 then [char_of (48 + n)] else dec (n div 10) @ [char_of (48 + n mod 10)])"

declare dec.simps [simp del]

definition to_string :: "int \<Rightarrow> string" where
  "to_string i = (if i < 0 then CHR ''-'' # dec (nat (- i)) else dec (nat i))"

definition display_name :: "Proc \<Rightarrow> string" where
  \<comment> \<open>lines 281--282\<close>
  "display_name p =
     (let nm = (if name p = [] then ''['' @ to_string (pid p) @ '']'' else name p)
      in if int (length nm) > 20 then take 17 nm @ ''...'' else nm)"

definition table_rows :: "int \<Rightarrow> Proc list \<Rightarrow> event list" where
  \<comment> \<open>lines 271--286: the column header on row 6, then at most \<open>max_rows\<close> processes\<close>
  "table_rows rows procs =
     (let max_rows = (if rows - 7 - 2 < 1 then 1 else rows - 7 - 2)
      in Mvprintw 6 0 TableHeader #
         map (\<lambda>(shown, p). Mvprintw (7 + int shown) 0
                 (Row (pid p) (display_name p) (cpu_pct p) (mem_pct p)))
             (enumerate 0 (take (nat max_rows) procs)))"

definition sort_label :: "int \<Rightarrow> string" where
  "sort_label mode = (if mode = 0 then ''CPU %'' else if mode = 1 then ''MEM %'' else ''PID'')"

definition draw_frame ::
  "int \<Rightarrow> int \<Rightarrow> int \<Rightarrow> ull \<Rightarrow> double \<Rightarrow> double \<Rightarrow> double \<Rightarrow> Proc list \<Rightarrow> error + event list" where
  \<comment> \<open>lines 240--292, \<open>procs\<close> already sorted\<close>
  "draw_frame rows cols mode total_time_delta uptime mem_total_mb mem_avail_mb procs =
     (let cpu = aggregate_cpu total_time_delta procs;
          bar_w = max 20 (tdiv cols 3);
          cpu_fraction = min 1 (cpu / 100);
          used_mem_mb = mem_total_mb - mem_avail_mb
      in bindE (draw_bar 3 24 bar_w cpu_fraction) (\<lambda>cpu_bar.
         bindE (if mem_total_mb > 0 then fdiv used_mem_mb mem_total_mb else Inr 0) (\<lambda>mem_fraction.
         bindE (draw_bar (3 + 1) 24 bar_w mem_fraction) (\<lambda>mem_bar.
           Inr ([Clear, Mvprintw 0 0 Title, Mvprintw 1 0 (SortLabel (sort_label mode)),
                 Mvprintw 2 0 (Summary uptime cpu mem_total_mb mem_avail_mb),
                 Mvprintw 3 0 CpuBarLabel] @ cpu_bar @
                [Mvprintw (3 + 1) 0 MemLabel] @ mem_bar @
                [Mvprintw (3 + 1) (24 + bar_w + 2)
                   (MemText used_mem_mb mem_total_mb (mem_fraction * 100))] @
                table_rows rows procs @
                [Mvprintw (rows - 2) 0 Commands, Mvprintw (rows - 1) 0 EnterCommand,
                 Refresh])))))"


section \<open>The control loop (lines 164--333)\<close>

record TermMode =
  nodelay :: bool
  echo :: bool
  curs :: int

fun term_step :: "TermMode \<Rightarrow> event \<Rightarrow> TermMode" where
  \<comment> \<open>what the ncurses calls do to the input mode\<close>
  "term_step t (Nodelay b) = t\<lparr>nodelay := b\<rparr>"
| "term_step t Echo = t\<lparr>echo := True\<rparr>"
| "term_step t Noecho = t\<lparr>echo := False\<rparr>"
| "term_step t (CursSet n) = t\<lparr>curs := n\<rparr>"
| "term_step t _ = t"

record Mon =
  prev_proc_time :: "int \<rightharpoonup> ull"
  prev_total_time :: ull
  last_time :: double
  sort_mode :: int
  tmode :: TermMode

text \<open>What the operating system, the terminal and the operator supply to one iteration.\<close>

record Obs =
  o_rows :: int \<comment> \<open>\<^verbatim>\<open>getmaxyx\<close>\<close>
  o_cols :: int
  o_now :: double \<comment> \<open>\<^verbatim>\<open>steady_clock::now()\<close>, in seconds\<close>
  o_total_time :: ull \<comment> \<open>\<^verbatim>\<open>read_total_time_from_proc_stat()\<close>\<close>
  o_uptime :: double \<comment> \<open>\<^verbatim>\<open>get_uptime_seconds()\<close>\<close>
  o_mem_total_mb :: double \<comment> \<open>\<^verbatim>\<open>read_mem_info\<close>\<close>
  o_mem_free_mb :: double
  o_mem_avail_mb :: double
  o_dir :: "string list option" \<comment> \<open>the entries of \<^verbatim>\<open>/proc\<close>\<close>
  o_files :: "int \<Rightarrow> pfile \<Rightarrow> string option"
  o_getch :: int \<comment> \<open>the key \<^verbatim>\<open>getch()\<close> returns, \<open>-1\<close> for none\<close>
  o_line :: string \<comment> \<open>the line typed at the kill prompt\<close>
  o_kill :: "int \<Rightarrow> int" \<comment> \<open>what \<^verbatim>\<open>kill(pid, SIGTERM)\<close> would return\<close>

definition monitor_mode :: TermMode where
  \<comment> \<open>after \<^verbatim>\<open>noecho(); nodelay(stdscr, TRUE); curs_set(0);\<close>\<close>
  "monitor_mode = \<lparr>nodelay = True, echo = False, curs = 0\<rparr>"

definition init_mon :: "ull \<Rightarrow> double \<Rightarrow> Mon" where
  \<comment> \<open>lines 166--182\<close>
  "init_mon total_time0 now0 =
     \<lparr>prev_proc_time = Map.empty, prev_total_time = total_time0, last_time = now0,
      sort_mode = 0, tmode = monitor_mode\<rparr>"

definition sample_interval :: "double \<Rightarrow> double \<Rightarrow> double" where
  \<comment> \<open>lines 189--191\<close>
  "sample_interval now last_t =
     (let interval = now - last_t in if interval \<le> 0 then 1 else interval)"

definition kill_flow :: "int \<Rightarrow> string \<Rightarrow> (int \<Rightarrow> int) \<Rightarrow> event list" where
  \<comment> \<open>lines 302--321; \<^verbatim>\<open>getnstr(buf, 31)\<close> keeps at most 31 characters of the line\<close>
  "kill_flow rows line kill_res =
     (let okpid = atoi (take 31 line)
      in [Nodelay False, Echo, CursSet 1, Mvprintw (rows - 1) 0 KillPrompt, Getnstr 31] @
         (if okpid > 0 then
            [Kill okpid,
             Mvprintw (rows - 1) 0 (if kill_res okpid = 0 then KillSent okpid else KillFailed okpid),
             Refresh, Getch]
          else []) @
         [Noecho, CursSet 0, Nodelay True])"

definition handle_input :: "Obs \<Rightarrow> Mon \<Rightarrow> event list \<times> Mon \<times> bool" where
  \<comment> \<open>lines 295--328: the events, the state, and whether the loop goes on\<close>
  "handle_input ob s =
     (let ch = o_getch ob
      in if ch = of_char CHR ''q'' \<or> ch = of_char CHR ''Q'' then ([Getch], s, False)
         else if ch = of_char CHR ''s'' \<or> ch = of_char CHR ''S'' then
           ([Getch, SleepMs 800], s\<lparr>sort_mode := (sort_mode s + 1) mod 3\<rparr>, True)
         else if ch = of_char CHR ''k'' \<or> ch = of_char CHR ''K'' then
           (let evs = kill_flow (o_rows ob) (o_line ob) (o_kill ob)
            in (Getch # evs @ [SleepMs 800], s\<lparr>tmode := foldl term_step (tmode s) evs\<rparr>, True))
         else ([Getch, SleepMs 200, SleepMs 800], s, True))"

definition iteration :: "int \<Rightarrow> int \<Rightarrow> Obs \<Rightarrow> Mon \<Rightarrow> error + event list \<times> Mon \<times> bool" where
  \<comment> \<open>one turn of \<^verbatim>\<open>while (true)\<close>\<close>
  "iteration CLK_TCK PAGE_SIZE ob s =
     (let interval = sample_interval (o_now ob) (last_time s);
          total_time_delta = (if o_total_time ob > prev_total_time s
                              then o_total_time ob - prev_total_time s else 0);
          s1 = s\<lparr>last_time := o_now ob, prev_total_time := o_total_time ob\<rparr>
      in bindE (get_all_processes (o_dir ob) (o_files ob) PAGE_SIZE) (\<lambda>procs0.
         bindE (update_procs CLK_TCK PAGE_SIZE interval (o_mem_total_mb ob)
                  (prev_proc_time s1) procs0) (\<lambda>(procs1, ppt').
           let s2 = s1\<lparr>prev_proc_time := ppt'\<rparr>;
               procs = std_sort (sort_cmp (sort_mode s2)) procs1
           in bindE (draw_frame (o_rows ob) (o_cols ob) (sort_mode s2) total_time_delta
                       (o_uptime ob) (o_mem_total_mb ob) (o_mem_avail_mb ob) procs) (\<lambda>frame.
                case handle_input ob s2 of
                  (evs, s3, continue) \<Rightarrow> Inr (frame @ evs, s3, continue)))))"

fun run :: "int \<Rightarrow> int \<Rightarrow> Obs list \<Rightarrow> Mon \<Rightarrow> error + event list \<times> Mon \<times> nat" where
  \<comment> \<open>the loop on a finite sequence of observations: the events, the last state and the
      number of iterations made (the loop stops at \<^verbatim>\<open>break\<close>)\<close>
  "run CLK_TCK PAGE_SIZE [] s = Inr ([], s, 0)"
| "run CLK_TCK PAGE_SIZE (ob # obs) s =
     bindE (iteration CLK_TCK PAGE_SIZE ob s) (\<lambda>(evs, s', continue).
       if continue then
         bindE (run CLK_TCK PAGE_SIZE obs s') (\<lambda>(evs', s'', n). Inr (evs @ evs', s'', Suc n))
       else Inr (evs, s', 1))"


section \<open>Claims\<close>

subsection \<open>Tick deltas\<close>

text \<open>
  C1. For every process: when the new cumulative tick count t1 is at least the stored
  prior value t0, the computed delta is t1 - t0 (as a number, without wrap-around); when
  t1 is below t0 the delta is 0; and a pid with no entry in the prior-state mapping takes
  the current observation as its prior, so its first-sight delta is 0.
\<close>

theorem delta_ticks:
  "(ppt (pid p) = Some t0 \<and> t0 \<le> time p \<longrightarrow>
      proc_delta ppt p = time p - t0 \<and>
      unat (proc_delta ppt p) = unat (time p) - unat t0) \<and>
   (ppt (pid p) = Some t0 \<and> time p < t0 \<longrightarrow> proc_delta ppt p = 0) \<and>
   (ppt (pid p) = None \<longrightarrow>
      proc_prev ppt p = time p \<and> proc_delta ppt p = 0)"
proof (intro conjI impI)
  assume h: "ppt (pid p) = Some t0 \<and> t0 \<le> time p"
  show "proc_delta ppt p = time p - t0"
  proof (cases "t0 < time p")
    case True
    with h show ?thesis by (simp add: proc_delta_def proc_prev_def)
  next
    case False
    with h have "time p = t0" by simp
    with h show ?thesis by (simp add: proc_delta_def proc_prev_def)
  qed
  with h show "unat (proc_delta ppt p) = unat (time p) - unat t0"
    by (simp add: unat_sub)
next
  assume "ppt (pid p) = Some t0 \<and> time p < t0"
  then show "proc_delta ppt p = 0"
    by (auto simp: proc_delta_def proc_prev_def)
next
  assume "ppt (pid p) = None"
  then show "proc_prev ppt p = time p" and "proc_delta ppt p = 0"
    by (simp_all add: proc_delta_def proc_prev_def)
qed

theorem delta_ticks_witness:
  "proc_delta [42 \<mapsto> 100] (Proc0\<lparr>pid := 42, time := 150\<rparr>) = 50 \<and>
   proc_delta [42 \<mapsto> 150] (Proc0\<lparr>pid := 42, time := 100\<rparr>) = 0 \<and>
   proc_delta Map.empty (Proc0\<lparr>pid := 42, time := 150\<rparr>) = 0"
  using delta_ticks [of "[42 \<mapsto> 100]" "Proc0\<lparr>pid := 42, time := 150\<rparr>" 100]
        delta_ticks [of "[42 \<mapsto> 150]" "Proc0\<lparr>pid := 42, time := 100\<rparr>" 150]
        delta_ticks [of Map.empty "Proc0\<lparr>pid := 42, time := 150\<rparr>" 0]
  by (simp add: Proc0_def)

subsection \<open>The error monad and one turn of the per-process pass\<close>

lemma bindE_Inr_iff: "bindE r f = Inr y \<longleftrightarrow> (\<exists>v. r = Inr v \<and> f v = Inr y)"
  by (cases r) (simp_all add: bindE_def)

lemma bindE_Inr [simp]: "bindE (Inr v) f = f v"
  by (simp add: bindE_def)

lemma bindE_Inl [simp]: "bindE (Inl e) f = Inl e"
  by (simp add: bindE_def)

lemma update_proc_Inr:
  "update_proc CLK_TCK PAGE_SIZE interval mem_total_mb ppt p = Inr (p', ppt') \<Longrightarrow>
     cpu_pct_of CLK_TCK interval (proc_delta ppt p) = Inr (cpu_pct p') \<and>
     mem_pct_of PAGE_SIZE mem_total_mb (rss_pages p) = Inr (mem_pct p') \<and>
     ppt' = ppt(pid p \<mapsto> time p) \<and> pid p' = pid p \<and> time p' = time p"
  by (auto simp: update_proc_def bindE_Inr_iff Let_def)

subsection \<open>Rounding to binary64\<close>

lemma bits_pos: "0 < n \<Longrightarrow> 0 < bits n"
  by (subst bits.simps) simp

lemma bits_bounds: "0 < n \<Longrightarrow> 2 ^ (bits n - 1) \<le> n \<and> n < 2 ^ bits n"
proof (induction n rule: bits.induct)
  case (1 n)
  have b: "bits n = Suc (bits (n div 2))"
    using "1.prems" by (subst bits.simps) simp
  show ?case
  proof (cases "n div 2 = 0")
    case True
    with "1.prems" have "n = 1" by presburger
    moreover have "bits 0 = 0" by (subst bits.simps) simp
    ultimately show ?thesis using b by simp
  next
    case False
    then have h: "0 < n div 2" by simp
    from "1.prems" have "n \<noteq> 0" by simp
    from "1.IH" [OF this h]
    have lo: "2 ^ (bits (n div 2) - 1) \<le> n div 2" and hi: "n div 2 < 2 ^ bits (n div 2)"
      by simp_all
    from bits_pos [OF h] have "(2::nat) ^ bits (n div 2) = 2 * 2 ^ (bits (n div 2) - 1)"
      by (cases "bits (n div 2)") simp_all
    with lo have "(2::nat) ^ bits (n div 2) \<le> 2 * (n div 2)" by simp
    then have "(2::nat) ^ bits (n div 2) \<le> n" by presburger
    moreover from hi have "n < 2 * 2 ^ bits (n div 2)" by presburger
    ultimately show ?thesis using b by simp
  qed
qed

lemma bexp_bounds:
  assumes "x \<noteq> 0"
  shows "2 powi bexp x \<le> \<bar>x\<bar> \<and> \<bar>x\<bar> < 2 powi (bexp x + 1)"
proof (cases "1 \<le> \<bar>x\<bar>")
  case True
  define n where "n = nat \<lfloor>\<bar>x\<bar>\<rfloor>"
  from True have n: "0 < n" by (simp add: n_def)
  have e: "bexp x = int (bits n) - 1"
    using True by (simp add: bexp_def n_def)
  from bits_pos [OF n] have e0: "bexp x = int (bits n - 1)" and e1: "bexp x + 1 = int (bits n)"
    using e by simp_all
  from bits_bounds [OF n] have lo: "2 ^ (bits n - 1) \<le> n" and hi: "n < 2 ^ bits n"
    by simp_all
  have nx: "real n \<le> \<bar>x\<bar>" and xn: "\<bar>x\<bar> < real n + 1"
    using True by (simp_all add: n_def)
  have p0: "(2::real) powi bexp x = 2 ^ (bits n - 1)"
    unfolding e0 by (rule power_int_of_nat)
  have p1: "(2::real) powi (bexp x + 1) = 2 ^ bits n"
    unfolding e1 by (rule power_int_of_nat)
  from lo have "real (2 ^ (bits n - 1)) \<le> real n" by (rule of_nat_mono)
  then have "(2::real) ^ (bits n - 1) \<le> real n" by simp
  then have a: "(2::real) ^ (bits n - 1) \<le> \<bar>x\<bar>" using nx by (rule order_trans)
  from hi have "Suc n \<le> 2 ^ bits n" by simp
  then have "real (Suc n) \<le> real (2 ^ bits n)" by (rule of_nat_mono)
  then have "real n + 1 \<le> (2::real) ^ bits n" by simp
  with xn have b: "\<bar>x\<bar> < (2::real) ^ bits n" by (rule less_le_trans)
  from a b show ?thesis by (simp only: p0 p1)
next
  case False
  define y where "y = 1 / \<bar>x\<bar>"
  define m where "m = nat \<lceil>y\<rceil>"
  define c where "c = bits (m - 1)"
  from assms False have y: "1 < y" by (simp add: y_def)
  then have m2: "2 \<le> m" unfolding m_def by linarith
  then have m1: "0 < m - 1" by simp
  have e: "bexp x = - int c"
    using False by (simp add: bexp_def c_def m_def y_def)
  from bits_bounds [OF m1] have lo: "2 ^ (c - 1) \<le> m - 1" and hi: "m - 1 < 2 ^ c"
    by (simp_all add: c_def)
  from bits_pos [OF m1] have cpos: "0 < c" by (simp add: c_def)
  from y have "0 \<le> \<lceil>y\<rceil>" by simp
  then have rm: "real m = real_of_int \<lceil>y\<rceil>" by (simp add: m_def)
  have ym: "y \<le> real m"
    unfolding rm by (rule le_of_int_ceiling)
  have my: "real m - 1 < y"
    unfolding rm using ceiling_correct [of y] by simp
  from hi have "m \<le> 2 ^ c" by simp
  then have "real m \<le> real (2 ^ c)" by (rule of_nat_mono)
  then have "real m \<le> (2::real) ^ c" by simp
  with ym have yc: "y \<le> 2 ^ c" by (rule order_trans)
  from lo have "real (2 ^ (c - 1)) \<le> real (m - 1)" by (rule of_nat_mono)
  with m2 have "(2::real) ^ (c - 1) \<le> real m - 1" by (simp add: of_nat_diff)
  then have cy: "2 ^ (c - 1) < y" using my by (rule le_less_trans)
  have xpos: "0 < \<bar>x\<bar>" using assms by simp
  have xy: "\<bar>x\<bar> = 1 / y" by (simp add: y_def)
  have ypos: "0 < y" using y by simp
  have p0: "(2::real) powi bexp x = 1 / 2 ^ c"
    unfolding e by (simp add: power_int_minus_divide)
  from cpos have "bexp x + 1 = - int (c - 1)"
    using e by simp
  then have p1: "(2::real) powi (bexp x + 1) = 1 / 2 ^ (c - 1)"
    by (simp add: power_int_minus_divide)
  from yc ypos have a: "1 / 2 ^ c \<le> 1 / y"
    by (intro divide_left_mono) simp_all
  have "(0::real) < y * 2 ^ (c - 1)" using ypos by simp
  with cy have b: "1 / y < 1 / 2 ^ (c - 1)"
    by (intro divide_strict_left_mono) simp_all
  from a b show ?thesis by (simp only: p0 p1 xy)
qed

lemma bexp_le_51:
  assumes "\<bar>x\<bar> < 2 ^ 52"
  shows "bexp x \<le> 51"
proof (cases "x = 0")
  case True
  then show ?thesis by (simp add: bexp_def bits.simps)
next
  case False
  from bexp_bounds [OF False] assms have "(2::real) powi bexp x < 2 powi 52"
    by simp
  then have "bexp x < 52"
    by (rule power_int_le_imp_less_exp [rotated]) simp_all
  then show ?thesis by simp
qed

lemma rne_le: "x \<le> real_of_int M \<Longrightarrow> rne x \<le> M"
proof -
  assume xm: "x \<le> real_of_int M"
  then have fm: "\<lfloor>x\<rfloor> \<le> M" by linarith
  show ?thesis
  proof (cases "\<lfloor>x\<rfloor> = M")
    case True
    with xm have "x - real_of_int \<lfloor>x\<rfloor> \<le> 0" by simp
    then have "x - real_of_int \<lfloor>x\<rfloor> < 1 / 2" by simp
    with True show ?thesis by (simp add: rne_def Let_def)
  next
    case False
    with fm have "\<lfloor>x\<rfloor> + 1 \<le> M" by simp
    then show ?thesis by (simp add: rne_def Let_def)
  qed
qed

lemma rne_ge: "real_of_int M \<le> x \<Longrightarrow> M \<le> rne x"
proof -
  assume "real_of_int M \<le> x"
  then have "M \<le> \<lfloor>x\<rfloor>" by linarith
  then show ?thesis by (simp add: rne_def Let_def)
qed

lemma ulp_below_half:
  assumes "\<bar>x\<bar> < 2 ^ 52"
  obtains N :: nat where "(2::real) powi (max (bexp x) (- 1022) - 52) = 1 / (2 * 2 ^ N)"
proof -
  define n where "n = max (bexp x) (- 1022) - 52"
  from bexp_le_51 [OF assms] have "n \<le> - 1" by (simp add: n_def)
  then have "n = - int (Suc (nat (- n - 1)))" by simp
  then have "(2::real) powi n = 1 / 2 ^ Suc (nat (- n - 1))"
    by (metis power_int_minus_divide power_int_of_nat)
  then have "(2::real) powi (max (bexp x) (- 1022) - 52) = 1 / (2 * 2 ^ nat (- n - 1))"
    by (simp add: n_def)
  then show ?thesis by (rule that)
qed

lemma round_double_le:
  assumes "\<bar>x\<bar> < 2 ^ 52" and "x \<le> real_of_int k / 2"
  shows "round_double x \<le> real_of_int k / 2"
proof (cases "x = 0")
  case True
  with assms(2) show ?thesis by (simp add: round_double_def)
next
  case False
  from assms(1) obtain N :: nat
    where u: "(2::real) powi (max (bexp x) (- 1022) - 52) = 1 / (2 * 2 ^ N)"
    by (rule ulp_below_half)
  from assms(2) have "x * (2 * 2 ^ N) \<le> real_of_int k / 2 * (2 * 2 ^ N)"
    by (intro mult_right_mono) simp_all
  then have "x * (2 * 2 ^ N) \<le> real_of_int (k * 2 ^ N)" by simp
  then have "rne (x * (2 * 2 ^ N)) \<le> k * 2 ^ N" by (rule rne_le)
  then have "real_of_int (rne (x * (2 * 2 ^ N))) \<le> real_of_int (k * 2 ^ N)"
    by (simp only: of_int_le_iff)
  then have "real_of_int (rne (x * (2 * 2 ^ N))) / (2 * 2 ^ N)
               \<le> real_of_int (k * 2 ^ N) / (2 * 2 ^ N)"
    by (intro divide_right_mono) simp_all
  moreover have "round_double x = real_of_int (rne (x * (2 * 2 ^ N))) / (2 * 2 ^ N)"
    using False by (simp add: round_double_def u)
  ultimately show ?thesis by simp
qed

lemma round_double_ge:
  assumes "\<bar>x\<bar> < 2 ^ 52" and "real_of_int k / 2 \<le> x"
  shows "real_of_int k / 2 \<le> round_double x"
proof (cases "x = 0")
  case True
  with assms(2) show ?thesis by (simp add: round_double_def)
next
  case False
  from assms(1) obtain N :: nat
    where u: "(2::real) powi (max (bexp x) (- 1022) - 52) = 1 / (2 * 2 ^ N)"
    by (rule ulp_below_half)
  from assms(2) have "real_of_int k / 2 * (2 * 2 ^ N) \<le> x * (2 * 2 ^ N)"
    by (intro mult_right_mono) simp_all
  then have "real_of_int (k * 2 ^ N) \<le> x * (2 * 2 ^ N)" by simp
  then have "k * 2 ^ N \<le> rne (x * (2 * 2 ^ N))" by (rule rne_ge)
  then have "real_of_int (k * 2 ^ N) \<le> real_of_int (rne (x * (2 * 2 ^ N)))"
    by (simp only: of_int_le_iff)
  then have "real_of_int (k * 2 ^ N) / (2 * 2 ^ N)
               \<le> real_of_int (rne (x * (2 * 2 ^ N))) / (2 * 2 ^ N)"
    by (intro divide_right_mono) simp_all
  moreover have "round_double x = real_of_int (rne (x * (2 * 2 ^ N))) / (2 * 2 ^ N)"
    using False by (simp add: round_double_def u)
  ultimately show ?thesis by simp
qed


lemma round_double_le_int: "\<bar>x\<bar> < 2 ^ 52 \<Longrightarrow> x \<le> real_of_int k \<Longrightarrow> round_double x \<le> real_of_int k"
  using round_double_le [of x "2 * k"] by simp

lemma round_double_ge_int: "\<bar>x\<bar> < 2 ^ 52 \<Longrightarrow> real_of_int k \<le> x \<Longrightarrow> real_of_int k \<le> round_double x"
  using round_double_ge [of x "2 * k"] by simp

lemma bar_value_le:
  assumes "\<bar>x\<bar> \<le> 2 ^ 31 - 1" and "x \<le> real_of_int a / 2"
  shows "round_double (round_double x + 1 / 2) \<le> real_of_int (a + 1) / 2"
proof -
  from assms(1) have xb: "\<bar>x\<bar> < 2 ^ 52" by simp
  from assms(1) have "x \<le> real_of_int (2 ^ 31 - 1)" and "real_of_int (- (2 ^ 31 - 1)) \<le> x"
    by simp_all
  then have "round_double x \<le> real_of_int (2 ^ 31 - 1)"
    and "real_of_int (- (2 ^ 31 - 1)) \<le> round_double x"
    using xb by (simp_all only: round_double_le_int round_double_ge_int)
  then have yb: "\<bar>round_double x + 1 / 2\<bar> < 2 ^ 52" by simp
  from xb assms(2) have "round_double x \<le> real_of_int a / 2" by (rule round_double_le)
  then have "round_double x + 1 / 2 \<le> real_of_int (a + 1) / 2" by simp
  with yb show ?thesis by (rule round_double_le)
qed

lemma bar_value_ge:
  assumes "\<bar>x\<bar> \<le> 2 ^ 31 - 1" and "real_of_int a / 2 \<le> x"
  shows "real_of_int (a + 1) / 2 \<le> round_double (round_double x + 1 / 2)"
proof -
  from assms(1) have xb: "\<bar>x\<bar> < 2 ^ 52" by simp
  from assms(1) have "x \<le> real_of_int (2 ^ 31 - 1)" and "real_of_int (- (2 ^ 31 - 1)) \<le> x"
    by simp_all
  then have "round_double x \<le> real_of_int (2 ^ 31 - 1)"
    and "real_of_int (- (2 ^ 31 - 1)) \<le> round_double x"
    using xb by (simp_all only: round_double_le_int round_double_ge_int)
  then have yb: "\<bar>round_double x + 1 / 2\<bar> < 2 ^ 52" by simp
  from xb assms(2) have "real_of_int a / 2 \<le> round_double x" by (rule round_double_ge)
  then have "real_of_int (a + 1) / 2 \<le> round_double x + 1 / 2" by simp
  with yb show ?thesis by (rule round_double_ge)
qed

lemma bar_value_fits:
  assumes "\<bar>x\<bar> \<le> 2 ^ 31 - 1"
  defines "z \<equiv> round_double (round_double x + 1 / 2)"
  shows "double_to_int z = Inr (if z \<ge> 0 then \<lfloor>z\<rfloor> else \<lceil>z\<rceil>)"
proof -
  from assms(1) have "x \<le> real_of_int (2 * (2 ^ 31 - 1)) / 2"
    and "real_of_int (- (2 * (2 ^ 31 - 1))) / 2 \<le> x" by simp_all
  then have "z \<le> real_of_int (2 * (2 ^ 31 - 1) + 1) / 2"
    and "real_of_int (- (2 * (2 ^ 31 - 1)) + 1) / 2 \<le> z"
    unfolding z_def using assms(1) by (simp_all only: bar_value_le bar_value_ge)
  then have hi: "z < 2 ^ 31" and lo: "- (2 ^ 31) < z" by simp_all
  from hi have "\<lfloor>z\<rfloor> < 2 ^ 31" by (simp add: floor_less_iff)
  moreover from lo have "- (2 ^ 31) \<le> \<lceil>z\<rceil>" by (simp add: le_ceiling_iff)
  moreover have "\<lfloor>z\<rfloor> \<le> \<lceil>z\<rceil>" by (rule floor_le_ceiling)
  ultimately show ?thesis
    by (simp add: double_to_int_def Let_def)
qed

lemma draw_bar_total:
  assumes "\<bar>fraction * real_of_int width\<bar> \<le> 2 ^ 31 - 1"
  shows "\<exists>cells. draw_bar y x width fraction = Inr cells"
  using bar_value_fits [OF assms] by (simp add: draw_bar_def)

subsection \<open>Memory percentage\<close>

text \<open>
  C6. For every process and every resident size, \<open>mem_pct\<close> is
  resident bytes / total bytes * 100 when the reported total memory is positive, it is
  exactly 0 when the reported total is 0, and the computation never divides by zero.
\<close>

theorem mem_pct_guarded:
  "(mem_total_mb > 0 \<longrightarrow>
      mem_pct_of PAGE_SIZE mem_total_mb rss =
        Inr (real_of_int rss * real_of_int PAGE_SIZE / (mem_total_mb * (1024 * 1024)) * 100)) \<and>
   (mem_total_mb = 0 \<longrightarrow> mem_pct_of PAGE_SIZE mem_total_mb rss = Inr 0) \<and>
   mem_pct_of PAGE_SIZE mem_total_mb rss \<noteq> Inl DivideByZero \<and>
   (update_proc CLK_TCK PAGE_SIZE interval mem_total_mb ppt p = Inr (p', ppt') \<longrightarrow>
      mem_pct_of PAGE_SIZE mem_total_mb (rss_pages p) = Inr (mem_pct p'))"
proof (intro conjI impI)
  assume "update_proc CLK_TCK PAGE_SIZE interval mem_total_mb ppt p = Inr (p', ppt')"
  then show "mem_pct_of PAGE_SIZE mem_total_mb (rss_pages p) = Inr (mem_pct p')"
    by (simp add: update_proc_Inr)
qed (simp_all add: mem_pct_of_def fdiv_def Let_def)

theorem mem_pct_guarded_witness:
  "mem_pct_of 4096 1000 25600 = Inr 10 \<and> mem_pct_of 4096 0 25600 = Inr 0"
  using mem_pct_guarded [of 1000 4096 25600] mem_pct_guarded [of 0 4096 25600]
  by simp

subsection \<open>Sampling interval and CPU percentage\<close>

lemma cpu_pct_of_nonneg:
  "0 < CLK_TCK \<Longrightarrow> \<exists>c. cpu_pct_of CLK_TCK interval delta = Inr c \<and> 0 \<le> c"
proof -
  assume tck: "0 < CLK_TCK"
  have "0 \<le> ull_to_double delta"
    unfolding ull_to_double_def by (rule of_nat_0_le_iff)
  with tck have secs: "0 \<le> ull_to_double delta / real_of_int CLK_TCK"
    by simp
  show ?thesis
  proof (cases "0 < interval")
    case True
    from secs True have "0 \<le> ull_to_double delta / real_of_int CLK_TCK / interval"
      by (rule divide_nonneg_pos)
    then have "0 \<le> ull_to_double delta / real_of_int CLK_TCK / interval * 100"
      by (rule mult_nonneg_nonneg) simp
    with True tck show ?thesis
      by (simp add: cpu_pct_of_def fdiv_def)
  next
    case False
    with tck show ?thesis
      by (simp add: cpu_pct_of_def fdiv_def)
  qed
qed

lemma update_procs_cpu_nonneg:
  "0 < CLK_TCK \<Longrightarrow>
   update_procs CLK_TCK PAGE_SIZE interval mem_total_mb ppt procs = Inr (procs', ppt') \<Longrightarrow>
   \<forall>p \<in> set procs'. 0 \<le> cpu_pct p"
proof (induction procs arbitrary: ppt procs' ppt')
  case Nil
  then show ?case by simp
next
  case (Cons q qs)
  from Cons.prems(2) obtain q' m' qs' where
    q: "update_proc CLK_TCK PAGE_SIZE interval mem_total_mb ppt q = Inr (q', m')" and
    qs: "update_procs CLK_TCK PAGE_SIZE interval mem_total_mb m' qs = Inr (qs', ppt')" and
    res: "procs' = q' # qs'"
    by (auto simp: bindE_Inr_iff)
  from q have "cpu_pct_of CLK_TCK interval (proc_delta ppt q) = Inr (cpu_pct q')"
    by (simp add: update_proc_Inr)
  with cpu_pct_of_nonneg [OF Cons.prems(1), of interval "proc_delta ppt q"]
  have "0 \<le> cpu_pct q'" by auto
  with Cons.IH [OF Cons.prems(1) qs] res show ?case by simp
qed

text \<open>
  C7, as stated, fails: only a non-positive measured interval is replaced by the fallback
  of 1.0 second.  A positive interval is used as measured however small it is: after one
  nanosecond no fallback is taken, and one tick then counts as 1000000000 percent.
\<close>

theorem interval_fallback_counterexample:
  "sample_interval (1 / 1000000000) 0 \<noteq> 1 \<and>
   cpu_pct_of 100 (sample_interval (1 / 1000000000) 0) 1 = Inr 1000000000"
  by (simp add: sample_interval_def cpu_pct_of_def fdiv_def ull_to_double_def)

text \<open>
  C7, amended. If the measured interval is non-positive, 1.0 second is substituted; a
  positive interval is kept as measured; the interval used is always positive; and with
  a positive tick rate no process is ever assigned a negative \<open>cpu_pct\<close>.
\<close>

theorem interval_fallback:
  "(now - last_t \<le> 0 \<longrightarrow> sample_interval now last_t = 1) \<and>
   (0 < now - last_t \<longrightarrow> sample_interval now last_t = now - last_t) \<and>
   0 < sample_interval now last_t \<and>
   (0 < CLK_TCK \<longrightarrow>
      (\<exists>c. cpu_pct_of CLK_TCK (sample_interval now last_t) delta = Inr c \<and> 0 \<le> c) \<and>
      (update_procs CLK_TCK PAGE_SIZE (sample_interval now last_t) mem_total_mb ppt procs
         = Inr (procs', ppt') \<longrightarrow> (\<forall>p \<in> set procs'. 0 \<le> cpu_pct p)))"
proof (intro conjI impI)
  show "0 < sample_interval now last_t"
    by (simp add: sample_interval_def Let_def)
next
  assume "0 < CLK_TCK"
  then show "\<exists>c. cpu_pct_of CLK_TCK (sample_interval now last_t) delta = Inr c \<and> 0 \<le> c"
    by (rule cpu_pct_of_nonneg)
next
  assume "0 < CLK_TCK"
    and "update_procs CLK_TCK PAGE_SIZE (sample_interval now last_t) mem_total_mb ppt procs
         = Inr (procs', ppt')"
  then show "\<forall>p \<in> set procs'. 0 \<le> cpu_pct p"
    by (rule update_procs_cpu_nonneg)
qed (simp_all add: sample_interval_def Let_def)

theorem interval_fallback_witness:
  "sample_interval 5 7 = 1 \<and> sample_interval 7 5 = 2 \<and>
   cpu_pct_of 100 (sample_interval 1 0) 50 = Inr 50 \<and>
   update_procs 100 4096 (sample_interval 1 0) 1000 [42 \<mapsto> 100]
     [Proc0\<lparr>pid := 42, time := 150\<rparr>]
     = Inr ([Proc0\<lparr>pid := 42, time := 150, cpu_pct := 50\<rparr>], [42 \<mapsto> 150])"
proof -
  have u: "update_procs 100 4096 (sample_interval 1 0) 1000 [42 \<mapsto> 100]
             [Proc0\<lparr>pid := 42, time := 150\<rparr>]
           = Inr ([Proc0\<lparr>pid := 42, time := 150, cpu_pct := 50\<rparr>], [42 \<mapsto> 150])"
    by (simp add: update_proc_def cpu_pct_of_def mem_pct_of_def proc_delta_def proc_prev_def
        sample_interval_def fdiv_def ull_to_double_def Proc0_def)
  have c: "cpu_pct_of 100 (sample_interval 1 0) 50 = Inr 50"
    by (simp add: sample_interval_def cpu_pct_of_def fdiv_def ull_to_double_def)
  from interval_fallback [of 5 7 100 50 4096 1000 "[42 \<mapsto> 100]"
      "[Proc0\<lparr>pid := 42, time := 150\<rparr>]" "[Proc0\<lparr>pid := 42, time := 150, cpu_pct := 50\<rparr>]"
      "[42 \<mapsto> 150]"]
    interval_fallback [of 7 5 100 50 4096 1000 "[42 \<mapsto> 100]"
      "[Proc0\<lparr>pid := 42, time := 150\<rparr>]" "[Proc0\<lparr>pid := 42, time := 150, cpu_pct := 50\<rparr>]"
      "[42 \<mapsto> 150]"]
    interval_fallback [of 1 0 100 50 4096 1000 "[42 \<mapsto> 100]"
      "[Proc0\<lparr>pid := 42, time := 150\<rparr>]" "[Proc0\<lparr>pid := 42, time := 150, cpu_pct := 50\<rparr>]"
      "[42 \<mapsto> 150]"] u c
  show ?thesis by simp
qed

subsection \<open>Aggregate CPU indicator\<close>

lemma foldl_cpu_sum:
  "foldl (\<lambda>sum_proc_cpu p. sum_proc_cpu + cpu_pct p) a procs = a + sum_list (map cpu_pct procs)"
  by (induction procs arbitrary: a) auto

lemma draw_frame_summary:
  "draw_frame rows cols mode d uptime mem_total_mb mem_avail_mb procs = Inr evs \<Longrightarrow>
   Mvprintw 2 0 (Summary uptime (aggregate_cpu d procs) mem_total_mb mem_avail_mb) \<in> set evs"
  by (auto simp: draw_frame_def Let_def bindE_Inr_iff)

text \<open>
  C2, as stated, fails: the sum is displayed only when the system-wide tick counter has
  advanced since the previous iteration.  When it has not (for instance when
  \<^verbatim>\<open>/proc/stat\<close> cannot be read and both readings are 0), 0 is displayed whatever the
  processes used.
\<close>

theorem aggregate_cpu_counterexample:
  "aggregate_cpu 0 [Proc0\<lparr>pid := 42, cpu_pct := 50\<rparr>]
     \<noteq> sum_list (map cpu_pct [Proc0\<lparr>pid := 42, cpu_pct := 50\<rparr>])"
  by (simp add: aggregate_cpu_def)

text \<open>
  C2, amended. For every iteration in which the system-wide tick counter has advanced
  (\<open>total_time_delta > 0\<close>), the displayed aggregate CPU indicator equals the sum of
  \<open>cpu_pct\<close> over all processes of the current snapshot; otherwise it is 0.
\<close>

theorem aggregate_cpu_sum:
  "aggregate_cpu total_time_delta procs
     = (if total_time_delta > 0 then sum_list (map cpu_pct procs) else 0) \<and>
   (draw_frame rows cols mode total_time_delta uptime mem_total_mb mem_avail_mb procs = Inr evs
      \<longrightarrow> Mvprintw 2 0 (Summary uptime (aggregate_cpu total_time_delta procs)
                          mem_total_mb mem_avail_mb) \<in> set evs)"
proof (intro conjI impI)
  show "aggregate_cpu total_time_delta procs
          = (if total_time_delta > 0 then sum_list (map cpu_pct procs) else 0)"
    by (simp add: aggregate_cpu_def foldl_cpu_sum)
next
  assume "draw_frame rows cols mode total_time_delta uptime mem_total_mb mem_avail_mb procs
            = Inr evs"
  then show "Mvprintw 2 0 (Summary uptime (aggregate_cpu total_time_delta procs)
                             mem_total_mb mem_avail_mb) \<in> set evs"
    by (rule draw_frame_summary)
qed

theorem aggregate_cpu_sum_witness:
  "aggregate_cpu 1 [Proc0\<lparr>pid := 1, cpu_pct := 30\<rparr>, Proc0\<lparr>pid := 2, cpu_pct := 20\<rparr>] = 50 \<and>
   aggregate_cpu 0 [Proc0\<lparr>pid := 1, cpu_pct := 30\<rparr>, Proc0\<lparr>pid := 2, cpu_pct := 20\<rparr>] = 0 \<and>
   (\<exists>evs. draw_frame 24 6 0 1 10 1000 500
             [Proc0\<lparr>pid := 1, cpu_pct := 30\<rparr>, Proc0\<lparr>pid := 2, cpu_pct := 20\<rparr>] = Inr evs \<and>
          Mvprintw 2 0 (Summary 10 50 1000 500) \<in> set evs)"
proof -
  let ?procs = "[Proc0\<lparr>pid := 1, cpu_pct := 30\<rparr>, Proc0\<lparr>pid := 2, cpu_pct := 20\<rparr>]"
  obtain b1 where b1: "draw_bar 3 24 20 (1 / 2) = Inr b1"
    using draw_bar_total [of "1 / 2" 20 3 24] by auto
  obtain b2 where b2: "draw_bar 4 24 20 (1 / 2) = Inr b2"
    using draw_bar_total [of "1 / 2" 20 4 24] by auto
  have "\<exists>evs. draw_frame 24 6 0 1 10 1000 500 ?procs = Inr evs"
    by (simp add: draw_frame_def aggregate_cpu_def tdiv_def fdiv_def b1 b2)
  then obtain evs where f: "draw_frame 24 6 0 1 10 1000 500 ?procs = Inr evs" ..
  note t1 = aggregate_cpu_sum [of 1 ?procs 24 6 0 10 1000 500 evs]
  note t0 = aggregate_cpu_sum [of 0 ?procs 24 6 0 10 1000 500 evs]
  from t1 have a: "aggregate_cpu 1 ?procs = 50" by simp
  from t0 have b: "aggregate_cpu 0 ?procs = 0" by simp
  from t1 f have "Mvprintw 2 0 (Summary 10 (aggregate_cpu 1 ?procs) 1000 500) \<in> set evs"
    by blast
  then have "Mvprintw 2 0 (Summary 10 50 1000 500) \<in> set evs"
    by (simp only: a)
  with a b f show ?thesis by blast
qed

subsection \<open>Progress bars\<close>






subsection \<open>Sort order\<close>

lemma mset_insert_by: "mset (insert_by lt x ys) = add_mset x (mset ys)"
  by (induction ys) auto

lemma set_insert_by: "set (insert_by lt x ys) = insert x (set ys)"
  by (induction ys) auto

lemma sorted_insert_by:
  assumes asym: "asymp lt"
    and trans: "transp lt"
    and ys: "sorted_wrt (\<lambda>a b. \<not> lt b a) ys"
  shows "sorted_wrt (\<lambda>a b. \<not> lt b a) (insert_by lt x ys)"
  using ys
proof (induction ys)
  case Nil
  then show ?case by simp
next
  case (Cons y ys)
  show ?case
  proof (cases "lt x y")
    case True
    have "\<not> lt z x" if "z \<in> set ys" for z
    proof
      assume "lt z x"
      with True trans have "lt z y" by (blast dest: transpD)
      with Cons.prems that show False by simp
    qed
    moreover from True asym have "\<not> lt y x" by (blast dest: asympD)
    ultimately show ?thesis using True Cons.prems by simp
  next
    case False
    with Cons show ?thesis by (auto simp: set_insert_by)
  qed
qed

lemma std_sort_post:
  assumes "asymp lt" and "transp lt"
  shows "sort_post lt xs (std_sort lt xs)"
proof -
  have "mset (std_sort lt xs) = mset xs"
    by (induction xs) (simp_all add: std_sort_def mset_insert_by)
  moreover have "sorted_wrt (\<lambda>a b. \<not> lt b a) (std_sort lt xs)"
  proof (induction xs)
    case Nil
    then show ?case by (simp add: std_sort_def)
  next
    case (Cons x xs)
    with assms have "sorted_wrt (\<lambda>a b. \<not> lt b a) (insert_by lt x (std_sort lt xs))"
      by (rule sorted_insert_by)
    then show ?case by (simp add: std_sort_def)
  qed
  ultimately show ?thesis by (simp add: sort_post_def)
qed

lemma sort_cmp_cases:
  "sort_cmp mode = cmp_cpu \<and> mode = 0 \<or> sort_cmp mode = cmp_mem \<and> mode = 1 \<or>
   sort_cmp mode = cmp_pid \<and> mode \<noteq> 0 \<and> mode \<noteq> 1"
  by (simp add: sort_cmp_def)

lemma cmp_cpu_asym: "cmp_cpu a b \<Longrightarrow> \<not> cmp_cpu b a"
  by (cases "cpu_pct a = cpu_pct b") (simp_all add: cmp_cpu_def)

lemma cmp_mem_asym: "cmp_mem a b \<Longrightarrow> \<not> cmp_mem b a"
  by (cases "mem_pct a = mem_pct b") (simp_all add: cmp_mem_def)

lemma cmp_cpu_trans: "cmp_cpu a b \<Longrightarrow> cmp_cpu b c \<Longrightarrow> cmp_cpu a c"
  by (cases "cpu_pct a = cpu_pct b"; cases "cpu_pct b = cpu_pct c")
     (simp_all add: cmp_cpu_def)

lemma cmp_mem_trans: "cmp_mem a b \<Longrightarrow> cmp_mem b c \<Longrightarrow> cmp_mem a c"
  by (cases "mem_pct a = mem_pct b"; cases "mem_pct b = mem_pct c")
     (simp_all add: cmp_mem_def)

lemma sort_cmp_asym: "sort_cmp mode a b \<Longrightarrow> \<not> sort_cmp mode b a"
  using sort_cmp_cases [of mode]
  by (auto simp: cmp_pid_def dest: cmp_cpu_asym cmp_mem_asym)

lemma sort_cmp_trans: "sort_cmp mode a b \<Longrightarrow> sort_cmp mode b c \<Longrightarrow> sort_cmp mode a c"
  using sort_cmp_cases [of mode]
  by (auto simp: cmp_pid_def dest: cmp_cpu_trans cmp_mem_trans)

lemma std_sort_sort_cmp: "sort_post (sort_cmp mode) procs (std_sort (sort_cmp mode) procs)"
proof (rule std_sort_post)
  show "asymp (sort_cmp mode)"
    by (rule asympI) (rule sort_cmp_asym)
  show "transp (sort_cmp mode)"
    by (rule transpI) (rule sort_cmp_trans)
qed

lemma sorted_wrt_distinct_key:
  "sorted_wrt P ys \<Longrightarrow> distinct (map f ys) \<Longrightarrow> sorted_wrt (\<lambda>a b. P a b \<and> f a \<noteq> f b) ys"
  by (induction ys) auto

lemma sort_post_distinct:
  assumes "sort_post lt xs ys" and "distinct (map f xs)"
  shows "distinct (map f ys)"
proof -
  from assms(1) have "mset (map f ys) = mset (map f xs)"
    by (simp add: sort_post_def)
  with assms(2) show ?thesis
    by (metis mset_eq_imp_distinct_iff)
qed

text \<open>
  C5. Whatever order \<^verbatim>\<open>std::sort\<close> leaves equivalent elements in, its result under
  BY_CPU_DESC (mode 0) is non-increasing in \<open>cpu_pct\<close> with entries of equal \<open>cpu_pct\<close> in
  ascending pid order, under BY_MEM_DESC (mode 1) the same holds for \<open>mem_pct\<close>, and
  under BY_PID_ASC (any other mode) the pids ascend; pids being unique within one
  snapshot, the pid order among ties and under BY_PID_ASC is strictly ascending.
\<close>

theorem sort_order:
  assumes "sort_post (sort_cmp mode) procs ys"
  shows "(mode = 0 \<longrightarrow>
            sorted_wrt (\<lambda>a b. cpu_pct a \<ge> cpu_pct b \<and> (cpu_pct a = cpu_pct b \<longrightarrow> pid a \<le> pid b)) ys) \<and>
         (mode = 1 \<longrightarrow>
            sorted_wrt (\<lambda>a b. mem_pct a \<ge> mem_pct b \<and> (mem_pct a = mem_pct b \<longrightarrow> pid a \<le> pid b)) ys) \<and>
         (mode \<noteq> 0 \<and> mode \<noteq> 1 \<longrightarrow> sorted_wrt (\<lambda>a b. pid a \<le> pid b) ys) \<and>
         (distinct (map pid procs) \<longrightarrow>
            (mode = 0 \<longrightarrow>
               sorted_wrt (\<lambda>a b. cpu_pct a \<ge> cpu_pct b \<and> (cpu_pct a = cpu_pct b \<longrightarrow> pid a < pid b)) ys) \<and>
            (mode = 1 \<longrightarrow>
               sorted_wrt (\<lambda>a b. mem_pct a \<ge> mem_pct b \<and> (mem_pct a = mem_pct b \<longrightarrow> pid a < pid b)) ys) \<and>
            (mode \<noteq> 0 \<and> mode \<noteq> 1 \<longrightarrow> sorted_wrt (\<lambda>a b. pid a < pid b) ys))"
proof -
  from assms have s: "sorted_wrt (\<lambda>a b. \<not> sort_cmp mode b a) ys"
    by (simp add: sort_post_def)
  have weak: "sorted_wrt Q ys"
    if "\<And>a b. \<not> sort_cmp mode b a \<Longrightarrow> Q a b" for Q :: "Proc \<Rightarrow> Proc \<Rightarrow> bool"
    using s by (rule sorted_wrt_mono_rel [rotated]) (rule that)
  have strict: "sorted_wrt Q ys"
    if "distinct (map pid procs)"
      and "\<And>a b. \<not> sort_cmp mode b a \<Longrightarrow> pid a \<noteq> pid b \<Longrightarrow> Q a b"
    for Q :: "Proc \<Rightarrow> Proc \<Rightarrow> bool"
  proof -
    from assms that(1) have "distinct (map pid ys)" by (rule sort_post_distinct)
    with s have "sorted_wrt (\<lambda>a b. \<not> sort_cmp mode b a \<and> pid a \<noteq> pid b) ys"
      by (rule sorted_wrt_distinct_key)
    then show ?thesis
      by (rule sorted_wrt_mono_rel [rotated]) (simp add: that(2))
  qed
  show ?thesis
  proof (intro conjI impI)
    assume "mode = 0"
    then show "sorted_wrt (\<lambda>a b. cpu_pct a \<ge> cpu_pct b \<and>
                              (cpu_pct a = cpu_pct b \<longrightarrow> pid a \<le> pid b)) ys"
      by (intro weak) (simp add: sort_cmp_def cmp_cpu_def split: if_splits)
  next
    assume "mode = 1"
    then show "sorted_wrt (\<lambda>a b. mem_pct a \<ge> mem_pct b \<and>
                              (mem_pct a = mem_pct b \<longrightarrow> pid a \<le> pid b)) ys"
      by (intro weak) (simp add: sort_cmp_def cmp_mem_def split: if_splits)
  next
    assume "mode \<noteq> 0 \<and> mode \<noteq> 1"
    then show "sorted_wrt (\<lambda>a b. pid a \<le> pid b) ys"
      by (intro weak) (simp add: sort_cmp_def cmp_pid_def)
  next
    assume "distinct (map pid procs)" and "mode = 0"
    then show "sorted_wrt (\<lambda>a b. cpu_pct a \<ge> cpu_pct b \<and>
                              (cpu_pct a = cpu_pct b \<longrightarrow> pid a < pid b)) ys"
      by (intro strict) (simp_all add: sort_cmp_def cmp_cpu_def split: if_splits)
  next
    assume "distinct (map pid procs)" and "mode = 1"
    then show "sorted_wrt (\<lambda>a b. mem_pct a \<ge> mem_pct b \<and>
                              (mem_pct a = mem_pct b \<longrightarrow> pid a < pid b)) ys"
      by (intro strict) (simp_all add: sort_cmp_def cmp_mem_def split: if_splits)
  next
    assume "distinct (map pid procs)" and "mode \<noteq> 0 \<and> mode \<noteq> 1"
    then show "sorted_wrt (\<lambda>a b. pid a < pid b) ys"
      by (intro strict) (simp_all add: sort_cmp_def cmp_pid_def)
  qed
qed

theorem sort_order_witness:
  "std_sort (sort_cmp 0)
     [Proc0\<lparr>pid := 3, cpu_pct := 1, mem_pct := 2\<rparr>, Proc0\<lparr>pid := 2, cpu_pct := 5, mem_pct := 2\<rparr>,
      Proc0\<lparr>pid := 1, cpu_pct := 1, mem_pct := 7\<rparr>]
   = [Proc0\<lparr>pid := 2, cpu_pct := 5, mem_pct := 2\<rparr>, Proc0\<lparr>pid := 1, cpu_pct := 1, mem_pct := 7\<rparr>,
      Proc0\<lparr>pid := 3, cpu_pct := 1, mem_pct := 2\<rparr>] \<and>
   std_sort (sort_cmp 1)
     [Proc0\<lparr>pid := 3, cpu_pct := 1, mem_pct := 2\<rparr>, Proc0\<lparr>pid := 2, cpu_pct := 5, mem_pct := 2\<rparr>,
      Proc0\<lparr>pid := 1, cpu_pct := 1, mem_pct := 7\<rparr>]
   = [Proc0\<lparr>pid := 1, cpu_pct := 1, mem_pct := 7\<rparr>, Proc0\<lparr>pid := 2, cpu_pct := 5, mem_pct := 2\<rparr>,
      Proc0\<lparr>pid := 3, cpu_pct := 1, mem_pct := 2\<rparr>] \<and>
   sorted_wrt (\<lambda>a b. pid a < pid b)
     (std_sort (sort_cmp 2)
        [Proc0\<lparr>pid := 3, cpu_pct := 1, mem_pct := 2\<rparr>, Proc0\<lparr>pid := 2, cpu_pct := 5, mem_pct := 2\<rparr>,
         Proc0\<lparr>pid := 1, cpu_pct := 1, mem_pct := 7\<rparr>])"
proof -
  let ?P = "[Proc0\<lparr>pid := 3, cpu_pct := 1, mem_pct := 2\<rparr>,
             Proc0\<lparr>pid := 2, cpu_pct := 5, mem_pct := 2\<rparr>,
             Proc0\<lparr>pid := 1, cpu_pct := 1, mem_pct := 7\<rparr>]"
  have d: "distinct (map pid ?P)" by simp
  have e0: "std_sort (sort_cmp 0) ?P
              = [Proc0\<lparr>pid := 2, cpu_pct := 5, mem_pct := 2\<rparr>,
                 Proc0\<lparr>pid := 1, cpu_pct := 1, mem_pct := 7\<rparr>,
                 Proc0\<lparr>pid := 3, cpu_pct := 1, mem_pct := 2\<rparr>]"
    by (simp add: std_sort_def sort_cmp_def cmp_cpu_def)
  have e1: "std_sort (sort_cmp 1) ?P
              = [Proc0\<lparr>pid := 1, cpu_pct := 1, mem_pct := 7\<rparr>,
                 Proc0\<lparr>pid := 2, cpu_pct := 5, mem_pct := 2\<rparr>,
                 Proc0\<lparr>pid := 3, cpu_pct := 1, mem_pct := 2\<rparr>]"
    by (simp add: std_sort_def sort_cmp_def cmp_mem_def)
  have p0: "sort_post (sort_cmp 0) ?P (std_sort (sort_cmp 0) ?P)"
    and p1: "sort_post (sort_cmp 1) ?P (std_sort (sort_cmp 1) ?P)"
    and p2: "sort_post (sort_cmp 2) ?P (std_sort (sort_cmp 2) ?P)"
    by (rule std_sort_sort_cmp)+
  from sort_order [OF p0] sort_order [OF p1] sort_order [OF p2] d
  have "sorted_wrt (\<lambda>a b. pid a < pid b) (std_sort (sort_cmp 2) ?P)"
    by simp
  with e0 e1 show ?thesis by blast
qed

subsection \<open>The kill sub-flow\<close>

lemma set_strip_sign: "set (snd (strip_sign s)) \<subseteq> set s"
  by (cases s) (auto simp: strip_sign_def)

lemma strtol10_no_digits:
  assumes "\<forall>c \<in> set s. \<not> isdigit_c c"
  shows "strtol10 s = 0"
proof -
  obtain neg s2 where ss: "strip_sign (dropWhile isspace_c s) = (neg, s2)"
    by (cases "strip_sign (dropWhile isspace_c s)")
  have "set s2 \<subseteq> set (dropWhile isspace_c s)"
    using set_strip_sign [of "dropWhile isspace_c s"] ss by simp
  also have "\<dots> \<subseteq> set s"
    by (auto dest: set_dropWhileD)
  finally have "\<forall>c \<in> set s2. \<not> isdigit_c c"
    using assms by blast
  then have "takeWhile isdigit_c s2 = []"
    by (cases s2) simp_all
  with ss show ?thesis
    by (simp add: strtol10_def decimal_def LONG_MIN_def LONG_MAX_def)
qed

lemma atoi_no_digits: "\<forall>c \<in> set s. \<not> isdigit_c c \<Longrightarrow> atoi s = 0"
  by (simp add: atoi_def strtol10_no_digits)

lemma Kill_in_kill_flow:
  "Kill n \<in> set (kill_flow rows line kill_res) \<longleftrightarrow> n = atoi (take 31 line) \<and> 0 < n"
  by (auto simp: kill_flow_def Let_def)

lemma Kill_in_handle_input:
  "Kill n \<in> set (fst (handle_input ob s)) \<Longrightarrow> n = atoi (take 31 (o_line ob)) \<and> 0 < n"
  by (auto simp: handle_input_def Let_def Kill_in_kill_flow split: if_splits)

text \<open>
  C8. In the kill sub-flow, whenever the entered line parses to a value less than or
  equal to 0 (a line without any digit parses to 0), no termination signal is sent; a
  signal is sent exactly when the parsed value is greater than 0, and to that value.
\<close>

theorem kill_only_positive:
  "(atoi (take 31 line) \<le> 0 \<longrightarrow> (\<forall>n. Kill n \<notin> set (kill_flow rows line kill_res))) \<and>
   (Kill n \<in> set (kill_flow rows line kill_res) \<longleftrightarrow> n = atoi (take 31 line) \<and> 0 < n) \<and>
   ((\<forall>c \<in> set line. \<not> isdigit_c c) \<longrightarrow>
      atoi (take 31 line) = 0 \<and> (\<forall>n. Kill n \<notin> set (kill_flow rows line kill_res))) \<and>
   (Kill n \<in> set (fst (handle_input ob s)) \<longrightarrow> n = atoi (take 31 (o_line ob)) \<and> 0 < n)"
proof (intro conjI impI)
  assume "atoi (take 31 line) \<le> 0"
  then show "\<forall>n. Kill n \<notin> set (kill_flow rows line kill_res)"
    by (simp add: Kill_in_kill_flow)
next
  show "Kill n \<in> set (kill_flow rows line kill_res) \<longleftrightarrow> n = atoi (take 31 line) \<and> 0 < n"
    by (rule Kill_in_kill_flow)
next
  assume nd: "\<forall>c \<in> set line. \<not> isdigit_c c"
  have "\<forall>c \<in> set (take 31 line). \<not> isdigit_c c"
    using nd by (blast dest: in_set_takeD)
  then show z: "atoi (take 31 line) = 0" by (rule atoi_no_digits)
  then show "\<forall>n. Kill n \<notin> set (kill_flow rows line kill_res)"
    by (simp add: Kill_in_kill_flow)
next
  assume "Kill n \<in> set (fst (handle_input ob s))"
  then show "n = atoi (take 31 (o_line ob))" and "0 < n"
    by (simp_all add: Kill_in_handle_input)
qed

lemma atoi_12: "atoi (take 31 ''12'') = 12"
  by code_simp

lemma atoi_m5: "atoi (take 31 '' -5'') = - 5"
  by code_simp

theorem kill_only_positive_witness:
  "kill_flow 24 ''abc'' (\<lambda>p. 0)
     = [Nodelay False, Echo, CursSet 1, Mvprintw 23 0 KillPrompt, Getnstr 31,
        Noecho, CursSet 0, Nodelay True] \<and>
   kill_flow 24 '' -5'' (\<lambda>p. 0)
     = [Nodelay False, Echo, CursSet 1, Mvprintw 23 0 KillPrompt, Getnstr 31,
        Noecho, CursSet 0, Nodelay True] \<and>
   kill_flow 24 ''12'' (\<lambda>p. 0)
     = [Nodelay False, Echo, CursSet 1, Mvprintw 23 0 KillPrompt, Getnstr 31,
        Kill 12, Mvprintw 23 0 (KillSent 12), Refresh, Getch,
        Noecho, CursSet 0, Nodelay True] \<and>
   Kill 12 \<in> set (kill_flow 24 ''12'' (\<lambda>p. 0))"
proof -
  have nd: "\<forall>c \<in> set ''abc''. \<not> isdigit_c c"
    by (simp add: isdigit_c_def)
  from kill_only_positive [of "''abc''" 24 "\<lambda>p. 0" 12] nd
  have a: "atoi (take 31 ''abc'') = 0" by blast
  from kill_only_positive [of "''12''" 24 "\<lambda>p. 0" 12] atoi_12
  have k: "Kill 12 \<in> set (kill_flow 24 ''12'' (\<lambda>p. 0))" by simp
  from kill_only_positive [of "'' -5''" 24 "\<lambda>p. 0" 12] atoi_m5
  have m: "\<forall>n. Kill n \<notin> set (kill_flow 24 '' -5'' (\<lambda>p. 0))" by simp
  have "kill_flow 24 ''abc'' (\<lambda>p. 0)
     = [Nodelay False, Echo, CursSet 1, Mvprintw 23 0 KillPrompt, Getnstr 31,
        Noecho, CursSet 0, Nodelay True]"
    unfolding kill_flow_def a by simp
  moreover have "kill_flow 24 '' -5'' (\<lambda>p. 0)
     = [Nodelay False, Echo, CursSet 1, Mvprintw 23 0 KillPrompt, Getnstr 31,
        Noecho, CursSet 0, Nodelay True]"
    unfolding kill_flow_def atoi_m5 by simp
  moreover have "kill_flow 24 ''12'' (\<lambda>p. 0)
     = [Nodelay False, Echo, CursSet 1, Mvprintw 23 0 KillPrompt, Getnstr 31,
        Kill 12, Mvprintw 23 0 (KillSent 12), Refresh, Getch,
        Noecho, CursSet 0, Nodelay True]"
    unfolding kill_flow_def atoi_12 by simp
  ultimately show ?thesis using k m by blast
qed

lemma kill_flow_mode: "foldl term_step t (kill_flow rows line kill_res) = monitor_mode"
  by (simp add: kill_flow_def Let_def monitor_mode_def)

text \<open>
  C10. After every execution of the kill sub-flow, whatever the line parsed to and
  whether the signal succeeded or failed, the input mode is again non-blocking with echo
  disabled and the cursor hidden, the loop continues, and nothing else of the loop state
  (sort mode, prior-state mapping, previous totals, last time) is modified.
\<close>

theorem kill_flow_restores_mode:
  "foldl term_step t (kill_flow rows line kill_res) = monitor_mode \<and>
   (o_getch ob = of_char CHR ''k'' \<or> o_getch ob = of_char CHR ''K'' \<longrightarrow>
      snd (handle_input ob s) = (s\<lparr>tmode := monitor_mode\<rparr>, True))"
  by (auto simp: handle_input_def Let_def kill_flow_mode)

theorem kill_flow_restores_mode_witness:
  "snd (handle_input
     \<lparr>o_rows = 24, o_cols = 80, o_now = 1, o_total_time = 0, o_uptime = 0,
      o_mem_total_mb = 0, o_mem_free_mb = 0, o_mem_avail_mb = 0, o_dir = None,
      o_files = (\<lambda>n f. None), o_getch = 107, o_line = ''12'', o_kill = (\<lambda>p. - 1)\<rparr>
     (init_mon 0 0))
   = (init_mon 0 0, True)"
  using kill_flow_restores_mode [of monitor_mode 24 "''12''" "\<lambda>p. - 1"
      "\<lparr>o_rows = 24, o_cols = 80, o_now = 1, o_total_time = 0, o_uptime = 0,
        o_mem_total_mb = 0, o_mem_free_mb = 0, o_mem_avail_mb = 0, o_dir = None,
        o_files = (\<lambda>n f. None), o_getch = 107, o_line = ''12'', o_kill = (\<lambda>p. - 1)\<rparr>"
      "init_mon 0 0"]
  by (simp add: init_mon_def)

subsection \<open>Growth of the prior-state mapping\<close>

lemma update_procs_dom:
  "update_procs CLK_TCK PAGE_SIZE interval mem_total_mb ppt procs = Inr (procs', ppt') \<Longrightarrow>
   dom ppt' = dom ppt \<union> pid ` set procs"
proof (induction procs arbitrary: ppt procs' ppt')
  case Nil
  then show ?case by simp
next
  case (Cons q qs)
  from Cons.prems obtain q' m' qs' where
    q: "update_proc CLK_TCK PAGE_SIZE interval mem_total_mb ppt q = Inr (q', m')" and
    qs: "update_procs CLK_TCK PAGE_SIZE interval mem_total_mb m' qs = Inr (qs', ppt')"
    by (auto simp: bindE_Inr_iff)
  from q have "m' = ppt(pid q \<mapsto> time q)"
    by (simp add: update_proc_Inr)
  then have "dom m' = insert (pid q) (dom ppt)" by simp
  with Cons.IH [OF qs] show ?case by auto
qed

lemma handle_input_prev_proc_time:
  "prev_proc_time (fst (snd (handle_input ob s))) = prev_proc_time s"
  by (simp add: handle_input_def Let_def)

lemma iteration_dom:
  assumes "iteration CLK_TCK PAGE_SIZE ob s = Inr (evs, s', continue)"
  shows "\<exists>procs. get_all_processes (o_dir ob) (o_files ob) PAGE_SIZE = Inr procs \<and>
                 dom (prev_proc_time s') = dom (prev_proc_time s) \<union> pid ` set procs"
proof -
  from assms obtain procs0 procs1 ppt' where
    g: "get_all_processes (o_dir ob) (o_files ob) PAGE_SIZE = Inr procs0" and
    u: "update_procs CLK_TCK PAGE_SIZE (sample_interval (o_now ob) (last_time s))
          (o_mem_total_mb ob) (prev_proc_time s) procs0 = Inr (procs1, ppt')" and
    h: "s' = fst (snd (handle_input ob
                   (s\<lparr>last_time := o_now ob, prev_total_time := o_total_time ob,
                      prev_proc_time := ppt'\<rparr>)))"
    by (auto simp: iteration_def Let_def bindE_Inr_iff case_prod_beta)
  from h have "prev_proc_time s' = ppt'"
    by (simp add: handle_input_prev_proc_time)
  with update_procs_dom [OF u] g show ?thesis by simp
qed

text \<open>
  C9. After every iteration the prior-state mapping holds an entry for every pid of
  every snapshot taken so far in the session, and no entry is ever removed from it.
\<close>

theorem prior_state_grows:
  assumes "run CLK_TCK PAGE_SIZE obs s = Inr (evs, s', n)"
  shows "dom (prev_proc_time s) \<subseteq> dom (prev_proc_time s') \<and> n \<le> length obs \<and>
         (\<forall>k<n. \<forall>procs. get_all_processes (o_dir (obs ! k)) (o_files (obs ! k)) PAGE_SIZE
                            = Inr procs \<longrightarrow> pid ` set procs \<subseteq> dom (prev_proc_time s'))"
  using assms
proof (induction obs arbitrary: s evs s' n)
  case Nil
  then show ?case by simp
next
  case (Cons ob obs)
  from Cons.prems obtain evs1 s1 continue where
    it: "iteration CLK_TCK PAGE_SIZE ob s = Inr (evs1, s1, continue)" and
    rest: "(if continue then
              bindE (run CLK_TCK PAGE_SIZE obs s1) (\<lambda>(evs', s'', m). Inr (evs1 @ evs', s'', Suc m))
            else Inr (evs1, s1, 1)) = Inr (evs, s', n)"
    by (auto simp: bindE_Inr_iff)
  from iteration_dom [OF it] obtain procs0 where
    g: "get_all_processes (o_dir ob) (o_files ob) PAGE_SIZE = Inr procs0" and
    d: "dom (prev_proc_time s1) = dom (prev_proc_time s) \<union> pid ` set procs0"
    by blast
  show ?case
  proof (cases continue)
    case False
    with rest have "s' = s1" and "n = 1" by simp_all
    with g d show ?thesis by auto
  next
    case True
    with rest obtain evs2 m where
      r: "run CLK_TCK PAGE_SIZE obs s1 = Inr (evs2, s', m)" and n: "n = Suc m"
      by (auto simp: bindE_Inr_iff)
    note ih = Cons.IH [OF r]
    from ih have ih1: "dom (prev_proc_time s1) \<subseteq> dom (prev_proc_time s')" ..
    from ih have ih2: "m \<le> length obs" by (elim conjE)
    from ih have ih3: "\<And>j procs. j < m \<Longrightarrow>
        get_all_processes (o_dir (obs ! j)) (o_files (obs ! j)) PAGE_SIZE = Inr procs \<Longrightarrow>
        pid ` set procs \<subseteq> dom (prev_proc_time s')"
      by (elim conjE) simp
    from d have sub: "dom (prev_proc_time s) \<subseteq> dom (prev_proc_time s1)"
      and p0: "pid ` set procs0 \<subseteq> dom (prev_proc_time s1)" by simp_all
    have "pid ` set procs \<subseteq> dom (prev_proc_time s')"
      if "k < n"
        and "get_all_processes (o_dir ((ob # obs) ! k)) (o_files ((ob # obs) ! k)) PAGE_SIZE
               = Inr procs"
      for k procs
    proof (cases k)
      case 0
      with that(2) g have "procs = procs0" by simp
      with p0 ih1 show ?thesis by (rule_tac subset_trans) simp_all
    next
      case (Suc j)
      with that n have "j < m"
        and "get_all_processes (o_dir (obs ! j)) (o_files (obs ! j)) PAGE_SIZE = Inr procs"
        by simp_all
      then show ?thesis by (rule ih3)
    qed
    then have all: "\<forall>k<n. \<forall>procs.
        get_all_processes (o_dir ((ob # obs) ! k)) (o_files ((ob # obs) ! k)) PAGE_SIZE
          = Inr procs \<longrightarrow> pid ` set procs \<subseteq> dom (prev_proc_time s')"
      by (intro allI impI)
    from sub ih1 have "dom (prev_proc_time s) \<subseteq> dom (prev_proc_time s')"
      by (rule subset_trans)
    moreover from ih2 n have "n \<le> length (ob # obs)" by simp
    ultimately show ?thesis using all by (intro conjI)
  qed
qed

lemma atoi_42: "atoi ''42'' = 42"
  by code_simp

lemma atoi_7: "atoi ''7'' = 7"
  by code_simp

lemma vanished_process:
  "read_process_basic (\<lambda>n f. None) PAGE_SIZE n = Inr (Proc0\<lparr>pid := n\<rparr>)"
  by (simp add: read_process_basic_def read_stat_time_def read_rss_def read_first_line_def
      Proc0_def)

theorem prior_state_grows_witness:
  "\<exists>evs s'.
     run 100 4096
       [\<lparr>o_rows = 24, o_cols = 80, o_now = 1, o_total_time = 10, o_uptime = 5,
         o_mem_total_mb = 1000, o_mem_free_mb = 100, o_mem_avail_mb = 500,
         o_dir = Some [''42''], o_files = (\<lambda>n f. None), o_getch = - 1, o_line = [],
         o_kill = (\<lambda>p. 0)\<rparr>,
        \<lparr>o_rows = 24, o_cols = 80, o_now = 2, o_total_time = 20, o_uptime = 6,
         o_mem_total_mb = 1000, o_mem_free_mb = 100, o_mem_avail_mb = 500,
         o_dir = Some [''self'', ''7''], o_files = (\<lambda>n f. None), o_getch = 113, o_line = [],
         o_kill = (\<lambda>p. 0)\<rparr>]
       (init_mon 0 0) = Inr (evs, s', 2) \<and>
     {42, 7} \<subseteq> dom (prev_proc_time s')"
proof -
  let ?a = "\<lparr>o_rows = 24, o_cols = 80, o_now = 1, o_total_time = 10, o_uptime = 5,
         o_mem_total_mb = 1000, o_mem_free_mb = 100, o_mem_avail_mb = 500,
         o_dir = Some [''42''], o_files = (\<lambda>n f. None), o_getch = - 1, o_line = [],
         o_kill = (\<lambda>p. 0)\<rparr>"
  let ?b = "\<lparr>o_rows = 24, o_cols = 80, o_now = 2, o_total_time = 20, o_uptime = 6,
         o_mem_total_mb = 1000, o_mem_free_mb = 100, o_mem_avail_mb = 500,
         o_dir = Some [''self'', ''7''], o_files = (\<lambda>n f. None), o_getch = 113, o_line = [],
         o_kill = (\<lambda>p. 0)\<rparr>"
  have ga: "get_all_processes (o_dir ?a) (o_files ?a) 4096 = Inr [Proc0\<lparr>pid := 42\<rparr>]"
    by (simp add: get_all_processes_def is_digits_def isdigit_c_def atoi_42 vanished_process)
  have gb: "get_all_processes (o_dir ?b) (o_files ?b) 4096 = Inr [Proc0\<lparr>pid := 7\<rparr>]"
    by (simp add: get_all_processes_def is_digits_def isdigit_c_def atoi_7 vanished_process)
  obtain c1 where c1: "draw_bar 3 24 26 0 = Inr c1"
    using draw_bar_total [of 0 26 3 24] by auto
  obtain c2 where c2: "draw_bar 4 24 26 (1 / 2) = Inr c2"
    using draw_bar_total [of "1 / 2" 26 4 24] by auto
  have "\<exists>evs s'. run 100 4096 [?a, ?b] (init_mon 0 0) = Inr (evs, s', 2)"
    using ga gb
    by (simp add: iteration_def init_mon_def sample_interval_def update_proc_def
        cpu_pct_of_def mem_pct_of_def proc_delta_def proc_prev_def fdiv_def ull_to_double_def
        Proc0_def std_sort_def draw_frame_def aggregate_cpu_def tdiv_def handle_input_def
        c1 c2)
  then obtain evs s' where r: "run 100 4096 [?a, ?b] (init_mon 0 0) = Inr (evs, s', 2)"
    by blast
  note t = prior_state_grows [OF r]
  from t ga have "pid ` set [Proc0\<lparr>pid := 42\<rparr>] \<subseteq> dom (prev_proc_time s')"
    by (elim conjE allE [of _ 0]) simp
  moreover from t gb have "pid ` set [Proc0\<lparr>pid := 7\<rparr>] \<subseteq> dom (prev_proc_time s')"
    by (elim conjE allE [of _ 1]) simp
  ultimately have "{42, 7} \<subseteq> dom (prev_proc_time s')"
    by (simp add: Proc0_def)
  with r show ?thesis by blast
qed

subsection \<open>Snapshots\<close>

text \<open>
  C4 does not hold of the code for one kind of malformed record.  A stat line of at least 22
  tokens whose 14th or 15th token is not a number makes \<^verbatim>\<open>std::stoull\<close> throw; nothing
  catches the exception, so the snapshot is lost and the program ends, instead of that
  one record being degraded.  (A missing or short record is degraded as the claim says.)
\<close>

theorem malformed_stat_aborts:
  "get_all_processes (Some [''42'', ''7''])
     (\<lambda>n f. if n = 7 \<and> f = Stat
            then Some ''7 (a) S 0 0 0 0 0 0 0 0 0 0 x 0 0 0 0 0 0 0 0'' else None) 4096
   = Inl InvalidArgument \<and>
   iteration 100 4096
     \<lparr>o_rows = 24, o_cols = 80, o_now = 1, o_total_time = 10, o_uptime = 5,
      o_mem_total_mb = 1000, o_mem_free_mb = 100, o_mem_avail_mb = 500,
      o_dir = Some [''42'', ''7''],
      o_files = (\<lambda>n f. if n = 7 \<and> f = Stat
                       then Some ''7 (a) S 0 0 0 0 0 0 0 0 0 0 x 0 0 0 0 0 0 0 0'' else None),
      o_getch = - 1, o_line = [], o_kill = (\<lambda>p. 0)\<rparr>
     (init_mon 0 0)
   = Inl InvalidArgument"
proof -
  have t: "tokens ''7 (a) S 0 0 0 0 0 0 0 0 0 0 x 0 0 0 0 0 0 0 0''
           = [''7'', ''(a)'', ''S'', ''0'', ''0'', ''0'', ''0'', ''0'', ''0'', ''0'', ''0'',
              ''0'', ''0'', ''x'', ''0'', ''0'', ''0'', ''0'', ''0'', ''0'', ''0'', ''0'']"
    by code_simp
  have s: "stoull ''x'' = Inl InvalidArgument"
    by code_simp
  have "read_stat_time ''7 (a) S 0 0 0 0 0 0 0 0 0 0 x 0 0 0 0 0 0 0 0'' p
          = Inl InvalidArgument" for p
    unfolding read_stat_time_def t by (simp add: s)
  then have g: "get_all_processes (Some [''42'', ''7''])
     (\<lambda>n f. if n = 7 \<and> f = Stat
            then Some ''7 (a) S 0 0 0 0 0 0 0 0 0 0 x 0 0 0 0 0 0 0 0'' else None) 4096
   = Inl InvalidArgument"
    by (simp add: get_all_processes_def is_digits_def isdigit_c_def atoi_42 atoi_7
        read_process_basic_def read_first_line_def read_stat_time_def read_rss_def)
  then show ?thesis
    by (simp add: iteration_def)
qed

text \<open>
  What does hold of the reader: when no exception is thrown, every all-digit entry of
  the directory yields exactly one record, in order, carrying its pid; and a process whose
  files cannot be opened yields the record with zero and blank fields
  (\<open>vanished_process\<close>).
\<close>

lemma read_process_basic_pid:
  "read_process_basic files PAGE_SIZE n = Inr p \<Longrightarrow> pid p = n"
  by (auto simp: read_process_basic_def read_stat_time_def read_rss_def Let_def bindE_Inr_iff
      split: if_splits option.splits)

lemma read_entries_pids:
  "read_entries files PAGE_SIZE ds = Inr procs \<Longrightarrow>
   map pid procs = map atoi (filter is_digits ds)"
proof (induction ds arbitrary: procs)
  case Nil
  then show ?case by simp
next
  case (Cons d ds)
  show ?case
  proof (cases "is_digits d")
    case False
    with Cons show ?thesis by simp
  next
    case True
    with Cons.prems obtain p ps where
      "read_process_basic files PAGE_SIZE (atoi d) = Inr p" and
      "read_entries files PAGE_SIZE ds = Inr ps" and "procs = p # ps"
      by (auto simp: bindE_Inr_iff)
    with True Cons.IH [of ps] show ?thesis
      by (simp add: read_process_basic_pid)
  qed
qed

end
